theory Spec2Isabelle
  imports Complex_Main "HOL-Library.Char_ord" "HOL-Library.List_Lexorder" "HOL-Library.AList"
begin

section \<open>Characters and strings\<close>

text \<open>
  The program is \<^verbatim>\<open>process_sr.py\<close>. A Python \<^verbatim>\<open>str\<close> is modelled as a
  \<^typ>\<open>string\<close>; a character of the model is one of the 256 code points below U+0100,
  and the character classes below are Python's (\<^verbatim>\<open>str.isspace\<close>, the \<^verbatim>\<open>re\<close> classes
  \<^verbatim>\<open>\s\<close>, \<^verbatim>\<open>\d\<close>, \<^verbatim>\<open>\w\<close>, \<^verbatim>\<open>str.lower\<close>) restricted to that range.
\<close>

definition code :: "char \<Rightarrow> nat" where
  "code c = of_char c"

definition bslash :: char where
  "bslash = CHR 0x5C"

definition dquote :: char where
  "dquote = CHR 0x22"

definition is_space :: "char \<Rightarrow> bool" where
  "is_space c =
     ((9 \<le> code c \<and> code c \<le> 13) \<or> (28 \<le> code c \<and> code c \<le> 32)
      \<or> code c = 133 \<or> code c = 160)"

definition is_digit :: "char \<Rightarrow> bool" where
  "is_digit c = (48 \<le> code c \<and> code c \<le> 57)"

definition is_alpha :: "char \<Rightarrow> bool" where
  "is_alpha c =
     ((65 \<le> code c \<and> code c \<le> 90) \<or> (97 \<le> code c \<and> code c \<le> 122)
      \<or> code c = 170 \<or> code c = 181 \<or> code c = 186
      \<or> (192 \<le> code c \<and> code c \<le> 214) \<or> (216 \<le> code c \<and> code c \<le> 246)
      \<or> 248 \<le> code c)"

definition is_word :: "char \<Rightarrow> bool" where
  "is_word c =
     (is_alpha c \<or> is_digit c \<or> c = CHR ''_''
      \<or> code c = 178 \<or> code c = 179 \<or> code c = 185
      \<or> (188 \<le> code c \<and> code c \<le> 190))"

definition lower_char :: "char \<Rightarrow> char" where
  "lower_char c =
     (if (65 \<le> code c \<and> code c \<le> 90)
         \<or> (192 \<le> code c \<and> code c \<le> 222 \<and> code c \<noteq> 215)
      then char_of (code c + 32) else c)"

definition lower :: "string \<Rightarrow> string" where
  "lower s = map lower_char s"

definition endswith :: "string \<Rightarrow> string \<Rightarrow> bool" where
  "endswith s suf = (length suf \<le> length s \<and> drop (length s - length suf) s = suf)"

text \<open>\<^verbatim>\<open>s.rstrip(chars)\<close> and \<^verbatim>\<open>s.strip()\<close>.\<close>

definition rstrip :: "(char \<Rightarrow> bool) \<Rightarrow> string \<Rightarrow> string" where
  "rstrip P s = rev (dropWhile P (rev s))"

definition strip :: "string \<Rightarrow> string" where
  "strip s = rstrip is_space (dropWhile is_space s)"

text \<open>\<^verbatim>\<open>re.sub(r"\s+", " ", s)\<close>: every maximal run of whitespace becomes one space.\<close>

function collapse_ws :: "string \<Rightarrow> string" where
  "collapse_ws [] = []"
| "collapse_ws (c # cs) =
     (if is_space c then CHR '' '' # collapse_ws (dropWhile is_space cs)
      else c # collapse_ws cs)"
  by pat_completeness auto
termination
  by (relation "measure length") (auto simp: less_Suc_eq_le length_dropWhile_le)

section \<open>Name sanitizer\<close>

definition MAX_NAME :: nat where
  "MAX_NAME = 150"

definition INVALID_FS_CHARS :: string where
  "INVALID_FS_CHARS =
     [CHR ''<'', CHR ''>'', CHR '':'', dquote, CHR ''/'', bslash, CHR ''|'', CHR ''?'', CHR ''*'']"

definition TRANS :: "char \<Rightarrow> char" where
  "TRANS c = (if c \<in> set INVALID_FS_CHARS then CHR '' '' else c)"

definition translate :: "string \<Rightarrow> string" where
  "translate s = map TRANS s"

definition dot_or_space :: "char \<Rightarrow> bool" where
  "dot_or_space c = (c = CHR '' '' \<or> c = CHR ''.'')"

definition safe_folder_name :: "string \<Rightarrow> string" where
  "safe_folder_name txt =
     (let clean = strip (translate txt);
          clean = collapse_ws clean;
          r = rstrip dot_or_space (take MAX_NAME clean)
      in if r = [] then ''message'' else r)"

subsection \<open>The final component of a Windows path\<close>

text \<open>
  \<^verbatim>\<open>Path(s).name\<close> on Windows, where the program runs (it drives Outlook through COM):
  both separators split, the drive and root are dropped as \<^verbatim>\<open>ntpath.splitroot\<close> does,
  empty and \<^verbatim>\<open>.\<close> components are discarded, and the name is the last component left
  (empty when there is none).
\<close>

definition is_sep :: "char \<Rightarrow> bool" where
  "is_sep c = (c = CHR ''/'' \<or> c = bslash)"

definition sep_at :: "string \<Rightarrow> nat \<Rightarrow> bool" where
  "sep_at s i = (i < length s \<and> is_sep (s ! i))"

definition find_sep :: "string \<Rightarrow> nat \<Rightarrow> nat option" where
  "find_sep s start =
     (let r = dropWhile (\<lambda>c. \<not> is_sep c) (drop start s)
      in if r = [] then None else Some (length s - length r))"

definition unc_prefix :: string where
  "unc_prefix = [CHR ''/'', CHR ''/'', CHR ''?'', CHR ''/'', CHR ''u'', CHR ''n'', CHR ''c'', CHR ''/'']"

definition norm_sep :: "char \<Rightarrow> char" where
  "norm_sep c = (if is_sep c then CHR ''/'' else c)"

definition splitroot_rel :: "string \<Rightarrow> string" where
  "splitroot_rel p =
     (if sep_at p 0 then
        (if sep_at p 1 then
           (let start = (if map (lower_char \<circ> norm_sep) (take 8 p) = unc_prefix then 8 else 2)
            in case find_sep p start of
                 None \<Rightarrow> []
               | Some index \<Rightarrow>
                   (case find_sep p (index + 1) of
                      None \<Rightarrow> []
                    | Some index2 \<Rightarrow> drop (index2 + 1) p))
         else drop 1 p)
      else if take 1 (drop 1 p) = '':'' then (if sep_at p 2 then drop 3 p else drop 2 p)
      else p)"

fun split_sep :: "string \<Rightarrow> string list" where
  "split_sep [] = [[]]"
| "split_sep (c # cs) =
     (if is_sep c then [] # split_sep cs
      else (case split_sep cs of [] \<Rightarrow> [[c]] | p # ps \<Rightarrow> (c # p) # ps))"

definition path_name :: "string \<Rightarrow> string" where
  "path_name s =
     (case rev (filter (\<lambda>x. x \<noteq> [] \<and> x \<noteq> ''.'') (split_sep (splitroot_rel s))) of
        [] \<Rightarrow> []
      | n # _ \<Rightarrow> n)"

definition safe_file_name :: "string \<Rightarrow> string" where
  "safe_file_name name =
     (let base = rstrip dot_or_space
                   (strip (translate (path_name (if name = [] then ''attachment'' else name))));
          base = collapse_ws base
      in take MAX_NAME (if base = [] then ''attachment'' else base))"

section \<open>Subject patterns\<close>

text \<open>
  The two compiled patterns of the program use literals, the classes \<^verbatim>\<open>\s\<close> and
  \<^verbatim>\<open>\d\<close> under \<^verbatim>\<open>*\<close>, \<^verbatim>\<open>+\<close> and \<^verbatim>\<open>{8,}\<close>, one optional group, \<^verbatim>\<open>^\<close> and
  \<^verbatim>\<open>\b\<close>, all under \<^verbatim>\<open>re.I\<close>. A pattern is a \<open>regex\<close>; \<open>Rep k n\<close> is class \<open>k\<close>
  repeated \<open>n\<close> times or more. The matcher keeps a cursor: the character just before the
  position (none at the start of the string) and the unread rest. \<open>ends\<close> lists every
  cursor a backtracking matcher can reach, longest repetition first, and \<open>search\<close> tries
  the start positions from left to right, as \<^verbatim>\<open>Pattern.search\<close> does.
\<close>

datatype cls = Space | Digit

fun in_cls :: "cls \<Rightarrow> char \<Rightarrow> bool" where
  "in_cls Space c = is_space c"
| "in_cls Digit c = is_digit c"

datatype regex = Lit char | Rep cls nat | Opt regex | Then regex regex | Bol | WordB

type_synonym cursor = "char option \<times> string"

fun rep_ends :: "(char \<Rightarrow> bool) \<Rightarrow> nat \<Rightarrow> char option \<Rightarrow> string \<Rightarrow> cursor list" where
  "rep_ends P n prev [] = (if n = 0 then [(prev, [])] else [])"
| "rep_ends P n prev (c # cs) =
     (if P c then rep_ends P (n - 1) (Some c) cs else []) @ (if n = 0 then [(prev, c # cs)] else [])"

definition word_opt :: "char option \<Rightarrow> bool" where
  "word_opt p = (case p of None \<Rightarrow> False | Some c \<Rightarrow> is_word c)"

definition next_char :: "string \<Rightarrow> char option" where
  "next_char s = (case s of [] \<Rightarrow> None | c # _ \<Rightarrow> Some c)"

fun ends :: "regex \<Rightarrow> char option \<Rightarrow> string \<Rightarrow> cursor list" where
  "ends (Lit c) prev s =
     (case s of [] \<Rightarrow> [] | x # xs \<Rightarrow> if lower_char x = lower_char c then [(Some x, xs)] else [])"
| "ends (Rep k n) prev s = rep_ends (in_cls k) n prev s"
| "ends (Opt r) prev s = ends r prev s @ [(prev, s)]"
| "ends (Then a b) prev s = concat (map (\<lambda>(p, r). ends b p r) (ends a prev s))"
| "ends Bol prev s = (if prev = None then [(prev, s)] else [])"
| "ends WordB prev s = (if word_opt prev \<noteq> word_opt (next_char s) then [(prev, s)] else [])"

fun search_from :: "regex \<Rightarrow> char option \<Rightarrow> string \<Rightarrow> bool" where
  "search_from r prev [] = (ends r prev [] \<noteq> [])"
| "search_from r prev (c # cs) = (ends r prev (c # cs) \<noteq> [] \<or> search_from r (Some c) cs)"

definition search :: "regex \<Rightarrow> string \<Rightarrow> bool" where
  "search r s = search_from r None s"

text \<open>\<^verbatim>\<open>re.compile(r"\bSR\d{8,}\b", re.I)\<close>\<close>

definition SR_SUBJECT_PATTERN :: regex where
  "SR_SUBJECT_PATTERN =
     Then WordB (Then (Lit CHR ''S'') (Then (Lit CHR ''R'') (Then (Rep Digit 8) WordB)))"

text \<open>\<^verbatim>\<open>re.compile(r'^\s*RE\s*(\[\d+\])?\s*:', re.I)\<close>\<close>

definition RE_PREFIX :: regex where
  "RE_PREFIX =
     Then Bol (Then (Rep Space 0) (Then (Lit CHR ''R'') (Then (Lit CHR ''E'')
       (Then (Rep Space 0)
         (Then (Opt (Then (Lit CHR ''['') (Then (Rep Digit 1) (Lit CHR '']''))))
           (Then (Rep Space 0) (Lit CHR '':'')))))))"

section \<open>The world the program acts on\<close>

text \<open>
  A path is the list of its components. The archive tree is a finite list of
  directories and a finite association list of files; \<open>unwritable\<close> and \<open>undeletable\<close>
  list the paths at which the operating system refuses a creation or a removal (the call
  raises \<^verbatim>\<open>OSError\<close>), and \<open>resolve\<close> is \<^verbatim>\<open>Path.resolve\<close>, which may raise. The
  processed-set file and the lock marker lie beside the executable and are kept apart from
  the tree: \<open>log_text\<close> is the text at \<^verbatim>\<open>LOG_PATH\<close> (\<open>None\<close> when the file is absent),
  \<open>log_locked\<close> says that reading or writing it raises, \<open>lock_mtime\<close> is the
  \<^verbatim>\<open>st_mtime\<close> of the marker at \<^verbatim>\<open>LOCK_PATH\<close> (\<open>None\<close> when absent),
  \<open>lock_undeletable\<close> says that removing the marker raises, \<open>clock\<close> is
  \<^verbatim>\<open>time.time()\<close>. Times are real numbers; the rounding of floating-point subtraction is
  not modelled. \<open>console\<close> collects what the program prints and \<open>marked_read\<close> the items
  Outlook was asked to mark read. An effectful operation returns the world it leaves
  behind together with its result, also when it raises.

  The set \<^verbatim>\<open>seen\<close> of the program is built by \<^verbatim>\<open>set(json.loads(...))\<close> from whatever
  document the log file holds, so besides the identifiers the program added it may hold
  values that are not strings (numbers, \<^verbatim>\<open>true\<close>, \<^verbatim>\<open>false\<close>, \<^verbatim>\<open>null\<close>). An element of
  the set is a \<open>key\<close>: a string, or another value of which the model keeps the identity
  only. The model decodes and encodes arrays of strings itself (section ``Processed-set
  store''). What the decoder makes of any other text, and what sorting and encoding gives
  for a set without strings, are the parameters \<open>json_other\<close> and \<open>dumps_other\<close> of the
  world; every statement below holds for all values of the two.
\<close>

datatype exn = OSError | FileExistsError | BadZipFile | RuntimeError | TypeError | com_error

text \<open>
  The content of a file is raw bytes or a well-formed archive with its members in order.
  A member is its name and what reading it gives: its data, an exception of
  \<^verbatim>\<open>ZipFile.open\<close> (an encrypted member), or an exception of \<^verbatim>\<open>read\<close> after the
  member was opened (a bad checksum raises \<^verbatim>\<open>BadZipFile\<close> there).
\<close>

datatype key = Str string | Other nat

datatype blob = Raw string | Zip "(string \<times> payload) list"
  and payload = Data blob | OpenFails exn | ReadFails exn

type_synonym member = "string \<times> payload"

type_synonym path = "string list"

datatype report =
    Stale_lock int
  | Another_run
  | Processing string string
  | Failed_save_msg exn
  | Saved_attachments "string list"
  | No_non_zip
  | Failed_attachments exn
  | Corrupt_zip string
  | Failed_delete_zip string exn
  | Failed_save_attachment string exn
  | Done nat

record world =
  dirs :: "path list"
  files :: "(path \<times> blob) list"
  unwritable :: "path list"
  undeletable :: "path list"
  resolve :: "path \<Rightarrow> exn + path"
  log_text :: "string option"
  log_locked :: bool
  lock_mtime :: "real option"
  lock_undeletable :: bool
  clock :: real
  console :: "report list"
  marked_read :: "string list"
  json_other :: "string \<Rightarrow> key list"
  dumps_other :: "key set \<Rightarrow> exn + string"

definition say :: "report \<Rightarrow> world \<Rightarrow> world" where
  "say r w = w\<lparr>console := console w @ [r]\<rparr>"

definition is_dir :: "world \<Rightarrow> path \<Rightarrow> bool" where
  "is_dir w p = (p = [] \<or> p \<in> set (dirs w))"

definition is_file :: "world \<Rightarrow> path \<Rightarrow> bool" where
  "is_file w p = (p \<in> set (map fst (files w)))"

text \<open>\<^verbatim>\<open>p.exists()\<close>\<close>

definition path_exists :: "world \<Rightarrow> path \<Rightarrow> bool" where
  "path_exists w p = (p \<in> set (dirs w) \<or> p \<in> set (map fst (files w)))"

text \<open>
  \<^verbatim>\<open>path.mkdir(parents=True, exist_ok=True)\<close>: an existing directory is left alone, an
  existing file makes the call raise, missing parents are created first.
\<close>

function mkdir_p :: "world \<Rightarrow> path \<Rightarrow> exn option \<times> world" where
  "mkdir_p w p =
     (if is_dir w p then (None, w)
      else if is_file w p then (Some FileExistsError, w)
      else (case mkdir_p w (butlast p) of
              (Some e, w') \<Rightarrow> (Some e, w')
            | (None, w') \<Rightarrow>
                if p \<in> set (unwritable w') then (Some OSError, w')
                else (None, w'\<lparr>dirs := p # dirs w'\<rparr>)))"
  by pat_completeness auto
termination
  by (relation "measure (\<lambda>(w, p). length p)") (auto simp: is_dir_def)

declare mkdir_p.simps [simp del]

definition ensure_dir :: "world \<Rightarrow> path \<Rightarrow> exn option \<times> world" where
  "ensure_dir w p = mkdir_p w p"

text \<open>\<^verbatim>\<open>open(p, "wb")\<close> followed by one \<^verbatim>\<open>write\<close>; also what a COM save does at \<open>p\<close>.\<close>

definition write_file :: "world \<Rightarrow> path \<Rightarrow> blob \<Rightarrow> exn option \<times> world" where
  "write_file w p b =
     (if is_dir w p \<or> \<not> is_dir w (butlast p) \<or> p \<in> set (unwritable w) then (Some OSError, w)
      else (None, w\<lparr>files := AList.update p b (files w)\<rparr>))"

text \<open>\<^verbatim>\<open>p.unlink(missing_ok=True)\<close>\<close>

definition unlink :: "world \<Rightarrow> path \<Rightarrow> exn option \<times> world" where
  "unlink w p =
     (if is_file w p then
        (if p \<in> set (undeletable w) then (Some OSError, w)
         else (None, w\<lparr>files := AList.delete p (files w)\<rparr>))
      else if is_dir w p then (Some OSError, w)
      else (None, w))"

text \<open>\<^verbatim>\<open>zipfile.ZipFile(p, "r").infolist()\<close>\<close>

definition read_zip :: "world \<Rightarrow> path \<Rightarrow> exn + member list" where
  "read_zip w p =
     (case map_of (files w) p of
        None \<Rightarrow> Inl OSError
      | Some (Raw _) \<Rightarrow> Inl BadZipFile
      | Some (Zip ms) \<Rightarrow> Inr ms)"

section \<open>Collision-free paths\<close>

definition digit_char :: "nat \<Rightarrow> char" where
  "digit_char n = char_of (48 + n)"

text \<open>The decimal numeral of \<^verbatim>\<open>f"{i}"\<close>.\<close>

function str_nat :: "nat \<Rightarrow> string" where
  "str_nat n = (if n < 10 then [digit_char n] else str_nat (n div 10) @ [digit_char (n mod 10)])"
  by pat_completeness auto
termination
  by (relation "measure id") auto

declare str_nat.simps [simp del]

definition name_of :: "path \<Rightarrow> string" where
  "name_of p = (if p = [] then [] else last p)"

text \<open>
  \<^verbatim>\<open>p.with_name(n)\<close>. Python raises \<^verbatim>\<open>ValueError\<close> on a path without a name; every
  path handed to \<open>unique_path\<close> is a directory joined with a non-empty name.
\<close>

definition with_name :: "path \<Rightarrow> string \<Rightarrow> path" where
  "with_name p n = butlast p @ [n]"

definition rfind_dot :: "string \<Rightarrow> nat option" where
  "rfind_dot s =
     (let r = dropWhile (\<lambda>c. c \<noteq> CHR ''.'') (rev s)
      in if r = [] then None else Some (length r - 1))"

definition path_suffix :: "path \<Rightarrow> string" where
  "path_suffix p =
     (let name = name_of p
      in case rfind_dot name of
           None \<Rightarrow> []
         | Some i \<Rightarrow> if 0 < i \<and> i < length name - 1 then drop i name else [])"

definition path_stem :: "path \<Rightarrow> string" where
  "path_stem p =
     (let name = name_of p
      in case rfind_dot name of
           None \<Rightarrow> name
         | Some i \<Rightarrow> if 0 < i \<and> i < length name - 1 then take i name else name)"

text \<open>\<^verbatim>\<open>p.with_name(f"{stem}_{i}{suffix}")\<close>\<close>

definition candidate :: "path \<Rightarrow> string \<Rightarrow> string \<Rightarrow> nat \<Rightarrow> path" where
  "candidate p stem suffix i = with_name p (stem @ ''_'' @ str_nat i @ suffix)"

lemma digit_char_inj: "a < 10 \<Longrightarrow> b < 10 \<Longrightarrow> digit_char a = digit_char b \<Longrightarrow> a = b"
proof -
  assume a: "a < 10" and b: "b < 10" and e: "digit_char a = digit_char b"
  from e have "of_char (digit_char a) = (of_char (digit_char b) :: nat)" by simp
  with a b show "a = b" by (simp add: digit_char_def)
qed

lemma str_nat_nonempty: "str_nat n \<noteq> []"
  by (subst str_nat.simps) simp

lemma str_nat_inj: "str_nat m = str_nat n \<Longrightarrow> m = n"
proof (induction m arbitrary: n rule: less_induct)
  case (less m)
  show ?case
  proof (cases "m < 10")
    case True
    then have m: "str_nat m = [digit_char m]" by (subst str_nat.simps) simp
    show ?thesis
    proof (cases "n < 10")
      case True
      then have "str_nat n = [digit_char n]" by (subst str_nat.simps) simp
      with m less.prems \<open>m < 10\<close> True show ?thesis by (auto dest: digit_char_inj)
    next
      case False
      then have "str_nat n = str_nat (n div 10) @ [digit_char (n mod 10)]"
        by (subst str_nat.simps) simp
      with m less.prems show ?thesis using str_nat_nonempty [of "n div 10"] by simp
    qed
  next
    case False
    then have m: "str_nat m = str_nat (m div 10) @ [digit_char (m mod 10)]"
      by (subst str_nat.simps) simp
    show ?thesis
    proof (cases "n < 10")
      case True
      then have "str_nat n = [digit_char n]" by (subst str_nat.simps) simp
      with m less.prems show ?thesis using str_nat_nonempty [of "m div 10"] by simp
    next
      case n: False
      then have "str_nat n = str_nat (n div 10) @ [digit_char (n mod 10)]"
        by (subst str_nat.simps) simp
      with m less.prems have e: "str_nat (m div 10) = str_nat (n div 10)"
        "digit_char (m mod 10) = digit_char (n mod 10)" by simp_all
      from False have "m div 10 < m" by simp
      from less.IH [OF this e(1)] have "m div 10 = n div 10" .
      moreover from e(2) have "m mod 10 = n mod 10" by (auto dest!: digit_char_inj [rotated 2])
      ultimately show ?thesis by (metis div_mult_mod_eq)
    qed
  qed
qed

lemma candidate_inj: "candidate p stem suffix i = candidate p stem suffix j \<Longrightarrow> i = j"
  by (simp add: candidate_def with_name_def str_nat_inj)

lemma finite_existing_candidates: "finite {j. path_exists w (candidate p stem suffix j)}"
proof -
  have "{j. path_exists w (candidate p stem suffix j)}
        = candidate p stem suffix -` (set (dirs w) \<union> set (map fst (files w)))"
    by (auto simp: path_exists_def)
  moreover have "inj (candidate p stem suffix)"
    by (rule injI) (rule candidate_inj)
  ultimately show ?thesis
    by (simp add: finite_vimageI)
qed

text \<open>
  The loop of \<^verbatim>\<open>unique_path\<close>. It ends because the candidates are pairwise different
  and only finitely many paths exist.
\<close>

function unique_loop :: "world \<Rightarrow> path \<Rightarrow> string \<Rightarrow> string \<Rightarrow> nat \<Rightarrow> path" where
  "unique_loop w p stem suffix i =
     (let cand = candidate p stem suffix i
      in if \<not> path_exists w cand then cand else unique_loop w p stem suffix (i + 1))"
  by pat_completeness auto
termination
proof (relation "measure (\<lambda>(w, p, stem, suffix, i). card {j. i \<le> j \<and> path_exists w (candidate p stem suffix j)})")
  show "wf (measure (\<lambda>(w, p, stem, suffix, i). card {j. i \<le> j \<and> path_exists w (candidate p stem suffix j)}))"
    by simp
next
  fix w :: world and p stem suffix i and x
  assume x: "x = candidate p stem suffix i" and ex: "\<not> \<not> path_exists w x"
  let ?A = "{j. i + 1 \<le> j \<and> path_exists w (candidate p stem suffix j)}"
  let ?B = "{j. i \<le> j \<and> path_exists w (candidate p stem suffix j)}"
  have fin: "finite ?B"
    by (rule finite_subset [OF _ finite_existing_candidates [of w p stem suffix]]) auto
  have "i \<in> ?B" "i \<notin> ?A" "?A \<subseteq> ?B"
    using x ex by auto
  then have "?A \<subset> ?B"
    by blast
  then have "card ?A < card ?B"
    by (rule psubset_card_mono [OF fin])
  then show "((w, p, stem, suffix, i + 1), (w, p, stem, suffix, i))
      \<in> measure (\<lambda>(w, p, stem, suffix, i). card {j. i \<le> j \<and> path_exists w (candidate p stem suffix j)})"
    by simp
qed

declare unique_loop.simps [simp del]

definition unique_path :: "world \<Rightarrow> path \<Rightarrow> path" where
  "unique_path w p =
     (if \<not> path_exists w p then p
      else unique_loop w p (path_stem p) (path_suffix p) 2)"

section \<open>Archive expander\<close>

text \<open>\<^verbatim>\<open>member.is_dir()\<close>: a member whose name ends in a separator.\<close>

definition member_is_dir :: "member \<Rightarrow> bool" where
  "member_is_dir m = (fst m \<noteq> [] \<and> is_sep (last (fst m)))"

text \<open>\<^verbatim>\<open>q.parents\<close>: the proper ancestors of a path, nearest first.\<close>

definition parents :: "path \<Rightarrow> path list" where
  "parents q = map (\<lambda>n. take n q) (rev [1 ..< length q])"

text \<open>
  The guard of \<^verbatim>\<open>secure_extract_member\<close>: the member is dropped when both paths resolve,
  the resolved destination is not an ancestor of the resolved output path, and the two are
  different. When \<^verbatim>\<open>resolve\<close> raises the exception is swallowed and the member is
  written.
\<close>

definition guard_rejects :: "world \<Rightarrow> path \<Rightarrow> path \<Rightarrow> bool" where
  "guard_rejects w out_path dest =
     (case resolve w out_path of
        Inl e \<Rightarrow> False
      | Inr out_path_resolved \<Rightarrow>
          (case resolve w dest of
             Inl e \<Rightarrow> False
           | Inr dest_resolved \<Rightarrow>
               dest_resolved \<notin> set (parents out_path_resolved)
               \<and> out_path_resolved \<noteq> dest_resolved))"

definition secure_extract_member :: "world \<Rightarrow> member \<Rightarrow> path \<Rightarrow> (exn + path option) \<times> world" where
  "secure_extract_member w member dest =
     (if member_is_dir member then (Inr None, w)
      else
        (let fname = path_name (fst member)
         in if fname = [] then (Inr None, w)
            else
              (let out_path = unique_path w (dest @ [safe_file_name fname])
               in if guard_rejects w out_path dest then (Inr None, w)
                  else
                    (case snd member of
                       OpenFails e \<Rightarrow> (Inl e, w)
                     | ReadFails e \<Rightarrow>
                         (case write_file w out_path (Raw []) of
                            (Some e', w') \<Rightarrow> (Inl e', w')
                          | (None, w') \<Rightarrow> (Inl e, w'))
                     | Data b \<Rightarrow>
                         (case write_file w out_path b of
                            (Some e', w') \<Rightarrow> (Inl e', w')
                          | (None, w') \<Rightarrow> (Inr (Some out_path), w'))))))"

text \<open>
  \<^verbatim>\<open>for member in zf.infolist(): secure_extract_member(zf, member, dest_folder)\<close>;
  an exception leaves the loop.
\<close>

fun extract_members :: "world \<Rightarrow> member list \<Rightarrow> path \<Rightarrow> exn option \<times> world" where
  "extract_members w [] dest = (None, w)"
| "extract_members w (m # ms) dest =
     (case secure_extract_member w m dest of
        (Inl e, w') \<Rightarrow> (Some e, w')
      | (Inr r, w') \<Rightarrow> extract_members w' ms dest)"

section \<open>Mail items\<close>

text \<open>
  What the mailbox source gives for an item. A read that raises is \<open>Inl\<close>;
  \<open>SaveAsFile_data\<close> and \<open>SaveAs_data\<close> are the bytes the COM call writes, or the
  exception it raises; \<open>Save_raises\<close> is the exception of marking the item read, if any.
\<close>

record attachment =
  FileName :: string
  SaveAsFile_data :: "exn + blob"

record mail =
  Class :: "int option"
  Subject :: "exn + string"
  EntryID :: "exn + string"
  Attachments :: "exn + attachment list"
  SaveAs_data :: "exn + blob"
  Save_raises :: "exn option"

definition SaveAsFile :: "attachment \<Rightarrow> world \<Rightarrow> path \<Rightarrow> exn option \<times> world" where
  "SaveAsFile att w p =
     (case SaveAsFile_data att of Inl e \<Rightarrow> (Some e, w) | Inr b \<Rightarrow> write_file w p b)"

definition SaveAs :: "mail \<Rightarrow> world \<Rightarrow> path \<Rightarrow> exn option \<times> world" where
  "SaveAs m w p =
     (case SaveAs_data m of Inl e \<Rightarrow> (Some e, w) | Inr b \<Rightarrow> write_file w p b)"

section \<open>Saving the message and the attachments\<close>

definition save_msg :: "world \<Rightarrow> mail \<Rightarrow> path \<Rightarrow> string \<Rightarrow> (exn + path) \<times> world" where
  "save_msg w m dest_folder subject =
     (let fname = (if safe_folder_name subject = [] then ''message'' else safe_folder_name subject);
          msg_path = unique_path w (dest_folder @ [fname @ ''.msg''])
      in case SaveAs m w msg_path of
           (Some e, w') \<Rightarrow> (Inl e, w')
         | (None, w') \<Rightarrow> (Inr msg_path, w'))"

text \<open>
  The archive branch of \<^verbatim>\<open>save_attachments\<close>: open the saved archive and extract its
  members, report a \<^verbatim>\<open>BadZipFile\<close>, and in the \<^verbatim>\<open>finally\<close> clause remove the archive,
  reporting a removal that fails. The result is the exception that leaves the branch, if
  any.
\<close>

definition expand_zip :: "world \<Rightarrow> path \<Rightarrow> path \<Rightarrow> exn option \<times> world" where
  "expand_zip w save_path dest_folder =
     (let (r, w1) = (case read_zip w save_path of
                       Inl e \<Rightarrow> (Some e, w)
                     | Inr ms \<Rightarrow> extract_members w ms dest_folder);
          (r2, w2) = (if r = Some BadZipFile then (None, say (Corrupt_zip (name_of save_path)) w1)
                      else (r, w1));
          w3 = (case unlink w2 save_path of
                  (Some e, w') \<Rightarrow> say (Failed_delete_zip (name_of save_path) e) w'
                | (None, w') \<Rightarrow> w')
      in (r2, w3))"

text \<open>One round of the loop over \<^verbatim>\<open>mail.Attachments\<close>.\<close>

definition save_attachment :: "world \<Rightarrow> attachment \<Rightarrow> path \<Rightarrow> path list \<Rightarrow> path list \<times> world" where
  "save_attachment w att dest_folder saved =
     (let raw_name = (if FileName att = [] then ''attachment'' else FileName att);
          clean_name = safe_file_name raw_name;
          save_path = unique_path w (dest_folder @ [clean_name])
      in case SaveAsFile att w save_path of
           (Some e, w1) \<Rightarrow> (saved, say (Failed_save_attachment clean_name e) w1)
         | (None, w1) \<Rightarrow>
             if endswith (lower clean_name) ''.zip'' then
               (case expand_zip w1 save_path dest_folder of
                  (Some e, w2) \<Rightarrow> (saved, say (Failed_save_attachment clean_name e) w2)
                | (None, w2) \<Rightarrow> (saved, w2))
             else (saved @ [save_path], w1))"

fun save_loop :: "world \<Rightarrow> attachment list \<Rightarrow> path \<Rightarrow> path list \<Rightarrow> path list \<times> world" where
  "save_loop w [] dest_folder saved = (saved, w)"
| "save_loop w (att # atts) dest_folder saved =
     (case save_attachment w att dest_folder saved of
        (saved', w') \<Rightarrow> save_loop w' atts dest_folder saved')"

definition save_attachments :: "world \<Rightarrow> mail \<Rightarrow> path \<Rightarrow> (exn + path list) \<times> world" where
  "save_attachments w m dest_folder =
     (case Attachments m of
        Inl e \<Rightarrow> (Inl e, w)
      | Inr atts \<Rightarrow> (case save_loop w atts dest_folder [] of (saved, w') \<Rightarrow> (Inr saved, w')))"

section \<open>Processed-set store\<close>

text \<open>
  \<^verbatim>\<open>json.dumps\<close> of a list of strings (the default \<^verbatim>\<open>ensure_ascii\<close> escapes) and
  the part of \<^verbatim>\<open>json.loads\<close> (strict mode) that reads arrays of strings, with any
  whitespace JSON allows. \<open>loads\<close> gives \<open>None\<close> for every other text, malformed or
  not; \<open>load_log\<close> then asks the world what the decoder makes of it.
\<close>

definition hex_digit :: "nat \<Rightarrow> char" where
  "hex_digit n = ''0123456789abcdef'' ! n"

definition esc_char :: "char \<Rightarrow> string" where
  "esc_char c =
     (if c = dquote then [bslash, dquote]
      else if c = bslash then [bslash, bslash]
      else if c = CHR 0x0A then [bslash, CHR ''n'']
      else if c = CHR 0x0D then [bslash, CHR ''r'']
      else if c = CHR 0x09 then [bslash, CHR ''t'']
      else if c = CHR 0x08 then [bslash, CHR ''b'']
      else if c = CHR 0x0C then [bslash, CHR ''f'']
      else if 32 \<le> code c \<and> code c \<le> 126 then [c]
      else [bslash, CHR ''u'', CHR ''0'', CHR ''0'', hex_digit (code c div 16), hex_digit (code c mod 16)])"

definition encode_string :: "string \<Rightarrow> string" where
  "encode_string s = dquote # concat (map esc_char s) @ [dquote]"

fun join :: "string \<Rightarrow> string list \<Rightarrow> string" where
  "join sep [] = []"
| "join sep [x] = x"
| "join sep (x # y # ys) = x @ sep @ join sep (y # ys)"

definition dumps :: "string list \<Rightarrow> string" where
  "dumps xs = ''['' @ join '', '' (map encode_string xs) @ '']''"

definition json_ws :: "char \<Rightarrow> bool" where
  "json_ws c = (c = CHR '' '' \<or> c = CHR 0x09 \<or> c = CHR 0x0A \<or> c = CHR 0x0D)"

definition skip_ws :: "string \<Rightarrow> string" where
  "skip_ws s = dropWhile json_ws s"

definition hex_val :: "char \<Rightarrow> nat option" where
  "hex_val c =
     (if 48 \<le> code c \<and> code c \<le> 57 then Some (code c - 48)
      else if 97 \<le> code c \<and> code c \<le> 102 then Some (code c - 87)
      else if 65 \<le> code c \<and> code c \<le> 70 then Some (code c - 55)
      else None)"

definition parse_hex4 :: "string \<Rightarrow> nat option" where
  "parse_hex4 s =
     (case s of
        a # b # c # d # _ \<Rightarrow>
          (case (hex_val a, hex_val b, hex_val c, hex_val d) of
             (Some x, Some y, Some z, Some u) \<Rightarrow> Some (((x * 16 + y) * 16 + z) * 16 + u)
           | _ \<Rightarrow> None)
      | _ \<Rightarrow> None)"

definition unescape :: "char \<Rightarrow> char option" where
  "unescape e =
     (if e = dquote then Some dquote
      else if e = bslash then Some bslash
      else if e = CHR ''/'' then Some CHR ''/''
      else if e = CHR ''b'' then Some (CHR 0x08)
      else if e = CHR ''f'' then Some (CHR 0x0C)
      else if e = CHR ''n'' then Some (CHR 0x0A)
      else if e = CHR ''r'' then Some (CHR 0x0D)
      else if e = CHR ''t'' then Some (CHR 0x09)
      else None)"

definition push :: "char \<Rightarrow> (string \<times> string) option \<Rightarrow> (string \<times> string) option" where
  "push c r = (case r of None \<Rightarrow> None | Some (s, rest) \<Rightarrow> Some (c # s, rest))"

text \<open>The body of a string after its opening quote: the decoded text and what follows the closing quote.\<close>

fun scanstring :: "string \<Rightarrow> (string \<times> string) option" where
  "scanstring [] = None"
| "scanstring (c # cs) =
     (if c = dquote then Some ([], cs)
      else if c = bslash then
        (case cs of
           [] \<Rightarrow> None
         | e # r \<Rightarrow>
             if e = CHR ''u'' then
               (case parse_hex4 r of
                  None \<Rightarrow> None
                | Some n \<Rightarrow> if n < 256 then push (char_of n) (scanstring (drop 4 r)) else None)
             else (case unescape e of None \<Rightarrow> None | Some d \<Rightarrow> push d (scanstring r)))
      else if code c < 32 then None
      else push c (scanstring cs))"

lemma scanstring_shorter: "scanstring s = Some (x, rest) \<Longrightarrow> length rest < length s"
proof (induction s arbitrary: x rest rule: scanstring.induct)
  case 1
  then show ?case by simp
next
  case (2 c cs)
  show ?case
  proof (cases "c = dquote")
    case True
    with 2 show ?thesis by simp
  next
    case nq: False
    show ?thesis
    proof (cases "c = bslash")
      case True
      with nq 2 show ?thesis
        by (fastforce simp: push_def split: list.splits option.splits if_splits prod.splits)
    next
      case False
      with nq 2 show ?thesis
        by (fastforce simp: push_def split: option.splits if_splits prod.splits)
    qed
  qed
qed

text \<open>The elements of a non-empty array, from its first element on, and what follows the closing bracket.\<close>

function parse_items :: "string \<Rightarrow> (string list \<times> string) option" where
  "parse_items s =
     (case s of
        [] \<Rightarrow> None
      | c # r \<Rightarrow>
          if c \<noteq> dquote then None
          else
            (case scanstring r of
               None \<Rightarrow> None
             | Some (x, r1) \<Rightarrow>
                 (case skip_ws r1 of
                    [] \<Rightarrow> None
                  | d # r2 \<Rightarrow>
                      if d = CHR '']'' then Some ([x], r2)
                      else if d = CHR '','' then
                        (case parse_items (skip_ws r2) of
                           None \<Rightarrow> None
                         | Some (xs, r3) \<Rightarrow> Some (x # xs, r3))
                      else None)))"
  by pat_completeness auto
termination
proof (relation "measure length")
  show "wf (measure (length :: string \<Rightarrow> nat))" by simp
next
  fix s :: string and c r xr x r1 d r2
  assume "s = c # r" "scanstring r = Some xr" "(x, r1) = xr" "skip_ws r1 = d # r2"
  then have "length r1 < length r" "length (d # r2) \<le> length r1"
    using scanstring_shorter [of r x r1] length_dropWhile_le [of json_ws r1]
    by (auto simp: skip_ws_def)
  moreover have "length (skip_ws r2) \<le> length r2"
    by (simp add: skip_ws_def length_dropWhile_le)
  ultimately show "(skip_ws r2, s) \<in> measure length"
    using \<open>s = c # r\<close> by simp
qed

declare parse_items.simps [simp del]

definition loads :: "string \<Rightarrow> string list option" where
  "loads s =
     (case skip_ws s of
        [] \<Rightarrow> None
      | c # r \<Rightarrow>
          if c \<noteq> CHR ''['' then None
          else
            (case skip_ws r of
               [] \<Rightarrow> None
             | d # r1 \<Rightarrow>
                 if d = CHR '']'' then (if skip_ws r1 = [] then Some [] else None)
                 else
                   (case parse_items (d # r1) of
                      None \<Rightarrow> None
                    | Some (xs, r2) \<Rightarrow> if skip_ws r2 = [] then Some xs else None)))"

fun is_str :: "key \<Rightarrow> bool" where
  "is_str (Str s) = True"
| "is_str (Other n) = False"

fun the_str :: "key \<Rightarrow> string" where
  "the_str (Str s) = s"
| "the_str (Other n) = []"

text \<open>
  \<^verbatim>\<open>load_log\<close>: no file, a file that cannot be read and a text the decoder or \<^verbatim>\<open>set\<close>
  rejects all give the empty set. An array of strings gives its elements. For any other
  text (a string gives its characters, an object its keys, an array of numbers its
  elements, ...) \<open>json_other\<close> lists the elements of the set, none when the call raises.
  Strings are those of the model, with code points below U+0100, here as everywhere.
\<close>

definition load_log :: "world \<Rightarrow> key set" where
  "load_log w =
     (case log_text w of
        None \<Rightarrow> {}
      | Some t \<Rightarrow>
          if log_locked w then {}
          else (case loads t of None \<Rightarrow> set (json_other w t) | Some xs \<Rightarrow> Str ` set xs))"

text \<open>
  \<^verbatim>\<open>json.dumps(sorted(seen))\<close>. A set of strings is sorted by code points and encoded.
  Comparing a string with a value that is not a string raises \<^verbatim>\<open>TypeError\<close>, and
  sorting a set of two or more elements compares across every split of it, so a set that
  holds strings and other values makes \<^verbatim>\<open>sorted\<close> raise. For a set without strings the
  outcome (\<^verbatim>\<open>null\<close> beside a number raises, numbers alone do not) is \<open>dumps_other\<close>.
\<close>

definition sorted_dumps :: "world \<Rightarrow> key set \<Rightarrow> exn + string" where
  "sorted_dumps w seen =
     (if \<forall>k\<in>seen. is_str k then Inr (dumps (sorted_list_of_set (the_str ` seen)))
      else if \<exists>k\<in>seen. is_str k then Inl TypeError
      else dumps_other w seen)"

text \<open>\<^verbatim>\<open>LOG_PATH.write_text(...)\<close>\<close>

definition write_log :: "world \<Rightarrow> string \<Rightarrow> exn option \<times> world" where
  "write_log w t =
     (if log_locked w then (Some OSError, w) else (None, w\<lparr>log_text := Some t\<rparr>))"

definition save_log :: "world \<Rightarrow> key set \<Rightarrow> exn option \<times> world" where
  "save_log w seen =
     (case sorted_dumps w seen of
        Inl e \<Rightarrow> (Some e, w)
      | Inr t \<Rightarrow> write_log w t)"

section \<open>Ingestion pipeline\<close>

definition BASE_DIR :: path where
  "BASE_DIR =
     [[bslash, bslash] @ ''CA0002-PPFSS01'' @ [bslash] @ ''workgroup'' @ [bslash],
      ''1566'', ''active'', ''156660046'', ''Kearl'', ''Survey Requests'']"

text \<open>
  The head of the loop body of \<^verbatim>\<open>process_folder\<close> (the checks before any effect): what
  becomes of a candidate, given the processed set.
\<close>

datatype verdict = NotMail | ReadFailed | NoTrackingNumber | Reply | AlreadySeen | Accepted string string

definition classify :: "key set \<Rightarrow> mail \<Rightarrow> verdict" where
  "classify seen m =
     (if Class m \<noteq> Some 43 then NotMail
      else
        (case Subject m of
           Inl e \<Rightarrow> ReadFailed
         | Inr subject \<Rightarrow>
             (case EntryID m of
                Inl e \<Rightarrow> ReadFailed
              | Inr entry_id \<Rightarrow>
                  if \<not> search SR_SUBJECT_PATTERN subject then NoTrackingNumber
                  else if search RE_PREFIX subject then Reply
                  else if Str entry_id \<in> seen then AlreadySeen
                  else Accepted subject entry_id)))"

text \<open>
  The rest of the loop body, for an accepted item. Only \<^verbatim>\<open>ensure_dir\<close> is outside every
  \<^verbatim>\<open>try\<close>: its exception leaves \<^verbatim>\<open>process_folder\<close>.
\<close>

definition archive :: "world \<Rightarrow> mail \<Rightarrow> string \<Rightarrow> string \<Rightarrow> exn option \<times> world" where
  "archive w m subject entry_id =
     (let dest_name = safe_folder_name subject;
          dest = BASE_DIR @ [dest_name]
      in case ensure_dir w dest of
           (Some e, w1) \<Rightarrow> (Some e, w1)
         | (None, w1) \<Rightarrow>
             (let w2 = say (Processing subject dest_name) w1;
                  w3 = (case save_msg w2 m dest subject of
                          (Inl e, w') \<Rightarrow> say (Failed_save_msg e) w'
                        | (Inr p, w') \<Rightarrow> w');
                  w4 = (case save_attachments w3 m dest of
                          (Inl e, w') \<Rightarrow> say (Failed_attachments e) w'
                        | (Inr saved_non_zips, w') \<Rightarrow>
                            say (if saved_non_zips \<noteq> [] then Saved_attachments (map name_of saved_non_zips)
                                 else No_non_zip) w');
                  w5 = (case Save_raises m of
                          None \<Rightarrow> w4\<lparr>marked_read := entry_id # marked_read w4\<rparr>
                        | Some e \<Rightarrow> w4)
              in (None, w5)))"

text \<open>The loop over the items: the world, the set \<^verbatim>\<open>seen\<close> and the counter \<^verbatim>\<open>processed\<close>.\<close>

fun process_items :: "world \<Rightarrow> key set \<Rightarrow> nat \<Rightarrow> mail list \<Rightarrow> exn option \<times> world \<times> key set \<times> nat" where
  "process_items w seen processed [] = (None, w, seen, processed)"
| "process_items w seen processed (m # rest) =
     (case classify seen m of
        Accepted subject entry_id \<Rightarrow>
          (case archive w m subject entry_id of
             (Some e, w') \<Rightarrow> (Some e, w', seen, processed)
           | (None, w') \<Rightarrow> process_items w' (insert (Str entry_id) seen) (processed + 1) rest)
      | _ \<Rightarrow> process_items w seen processed rest)"

text \<open>
  \<^verbatim>\<open>process_folder\<close>, given the unread items of the inbox, newest first. Reaching
  Outlook is outside the model.
\<close>

definition process_folder :: "world \<Rightarrow> mail list \<Rightarrow> exn option \<times> world" where
  "process_folder w items =
     (let seen = load_log w
      in case process_items w seen 0 items of
           (Some e, w1, seen1, processed) \<Rightarrow> (Some e, w1)
         | (None, w1, seen1, processed) \<Rightarrow>
             (case save_log w1 seen1 of
                (Some e, w2) \<Rightarrow> (Some e, w2)
              | (None, w2) \<Rightarrow> (None, say (Done processed) w2)))"

section \<open>Run lock\<close>

definition LOCK_MAX_AGE_SECS :: real where
  "LOCK_MAX_AGE_SECS = 15 * 60"

text \<open>The first \<^verbatim>\<open>try\<close> of \<^verbatim>\<open>single_instance_lock\<close>; an exception in it is swallowed.\<close>

definition clear_stale :: "world \<Rightarrow> world" where
  "clear_stale w =
     (case lock_mtime w of
        None \<Rightarrow> w
      | Some mtime \<Rightarrow>
          (let age = clock w - mtime
           in if age > LOCK_MAX_AGE_SECS then
                (let w1 = say (Stale_lock \<lfloor>age\<rfloor>) w
                 in if lock_undeletable w1 then w1 else w1\<lparr>lock_mtime := None\<rparr>)
              else w))"

text \<open>\<^verbatim>\<open>os.open(LOCK_PATH, os.O_CREAT | os.O_EXCL | os.O_RDWR)\<close>\<close>

definition acquire :: "world \<Rightarrow> exn option \<times> world" where
  "acquire w =
     (case lock_mtime w of
        Some mtime \<Rightarrow> (Some FileExistsError, w)
      | None \<Rightarrow> (None, w\<lparr>lock_mtime := Some (clock w)\<rparr>))"

text \<open>The \<^verbatim>\<open>finally\<close> clause: close and remove the marker; an exception is swallowed.\<close>

definition release :: "world \<Rightarrow> world" where
  "release w = (if lock_undeletable w then w else w\<lparr>lock_mtime := None\<rparr>)"

datatype outcome = SystemExit int | Returned | Raised exn

definition exit_code :: "outcome \<Rightarrow> int" where
  "exit_code out = (case out of SystemExit n \<Rightarrow> n | Returned \<Rightarrow> 0 | Raised e \<Rightarrow> 1)"

text \<open>\<^verbatim>\<open>with single_instance_lock(): process_folder()\<close>\<close>

definition main :: "world \<Rightarrow> mail list \<Rightarrow> outcome \<times> world" where
  "main w items =
     (let w1 = clear_stale w
      in case acquire w1 of
           (Some e, w2) \<Rightarrow>
             if e = FileExistsError then (SystemExit 0, say Another_run w2) else (Raised e, w2)
         | (None, w2) \<Rightarrow>
             (case process_folder w2 items of
                (None, w3) \<Rightarrow> (Returned, release w3)
              | (Some e, w3) \<Rightarrow> (Raised e, release w3)))"

section \<open>Definitions that follow the specification's words\<close>

text \<open>
  ``The subject contains, as a whole word, a case-insensitive token SR followed by at least
  8 digits'': the subject splits into a part before the token, the two letters, a run of
  at least eight digits and a part after it, with no word character next to the token on
  either side.
\<close>

definition has_sr_token :: "string \<Rightarrow> bool" where
  "has_sr_token s =
     (\<exists>pre c1 c2 ds post.
        s = pre @ c1 # c2 # ds @ post
        \<and> lower_char c1 = CHR ''s'' \<and> lower_char c2 = CHR ''r''
        \<and> 8 \<le> length ds \<and> list_all is_digit ds
        \<and> (pre = [] \<or> \<not> is_word (last pre))
        \<and> (post = [] \<or> \<not> is_word (hd post)))"

text \<open>An optional reply count: nothing, or a bracketed number.\<close>

definition reply_bracket :: "string \<Rightarrow> bool" where
  "reply_bracket br =
     (br = [] \<or> (\<exists>ds. ds \<noteq> [] \<and> list_all is_digit ds \<and> br = CHR ''['' # ds @ '']''))"

text \<open>
  ``The subject begins, after optional leading whitespace, with a case-insensitive reply
  prefix \<^verbatim>\<open>RE:\<close> or \<^verbatim>\<open>RE[n]:\<close>'', read literally: the two letters, the optional
  bracketed number and the colon follow one another directly.
\<close>

definition literal_reply_prefix :: "string \<Rightarrow> bool" where
  "literal_reply_prefix s =
     (\<exists>ws c1 c2 br rest.
        s = ws @ c1 # c2 # br @ CHR '':'' # rest
        \<and> list_all is_space ws
        \<and> lower_char c1 = CHR ''r'' \<and> lower_char c2 = CHR ''e''
        \<and> reply_bracket br)"

text \<open>The reply prefix with whitespace allowed after the letters and after the bracketed number.\<close>

definition has_reply_prefix :: "string \<Rightarrow> bool" where
  "has_reply_prefix s =
     (\<exists>ws1 c1 c2 ws2 br ws3 rest.
        s = ws1 @ c1 # c2 # ws2 @ br @ ws3 @ CHR '':'' # rest
        \<and> list_all is_space ws1 \<and> list_all is_space ws2 \<and> list_all is_space ws3
        \<and> lower_char c1 = CHR ''r'' \<and> lower_char c2 = CHR ''e''
        \<and> reply_bracket br)"

text \<open>Auxiliary notions for the proofs about the matcher.\<close>

definition last_opt :: "char option \<Rightarrow> string \<Rightarrow> char option" where
  "last_opt prev ys = (if ys = [] then prev else Some (last ys))"

definition bracket_re :: regex where
  "bracket_re = Opt (Then (Lit CHR ''['') (Then (Rep Digit 1) (Lit CHR '']'')))"

text \<open>A mail item with nothing attached, for the closed instances below.\<close>

definition sample_mail :: "string \<Rightarrow> string \<Rightarrow> mail" where
  "sample_mail subject entry_id =
     \<lparr>Class = Some 43, Subject = Inr subject, EntryID = Inr entry_id, Attachments = Inr [],
      SaveAs_data = Inr (Raw ''msg''), Save_raises = None\<rparr>"

text \<open>
  Two small worlds for the closed instances below. They have no log file, and every log
  text the closed instances meet in them is an array of strings, which the model decodes
  itself: their two decoder parameters are never consulted. The worlds
  \<open>foreign_log_world\<close> and \<open>keyed_log_world\<close> below set the parameters for their texts.
\<close>

definition empty_world :: world where
  "empty_world =
     \<lparr>dirs = [], files = [], unwritable = [], undeletable = [], resolve = Inr,
      log_text = None, log_locked = False, lock_mtime = None, lock_undeletable = False,
      clock = 0, console = [], marked_read = [],
      json_other = (\<lambda>t. []), dumps_other = (\<lambda>s. Inl TypeError)\<rparr>"

definition taken_world :: world where
  "taken_world =
     empty_world\<lparr>dirs := [[''d'']],
                  files := [([''d'', ''a.txt''], Raw ''x''), ([''d'', ''a_2.txt''], Raw ''y'')]\<rparr>"


definition one_item :: "mail list" where
  "one_item = [sample_mail ''FW: SR12345678'' ''id1'']"

definition unreadable_item :: mail where
  "unreadable_item = (sample_mail ''FW: SR12345678'' ''id1'')\<lparr>Subject := Inl com_error\<rparr>"




definition foreign_log_world :: world where
  "foreign_log_world =
     empty_world\<lparr>log_text := Some ''[1, 2]'',
                  json_other := (\<lambda>t. if t = ''[1, 2]'' then [Other 1, Other 2] else []),
                  dumps_other := (\<lambda>s. Inr ''[1, 2]'')\<rparr>"

definition keyed_log_world :: world where
  "keyed_log_world =
     empty_world\<lparr>log_text := Some ([CHR ''{'', dquote] @ ''id1'' @ [dquote] @ '': 0}''),
                  json_other := (\<lambda>t. if t = [CHR ''{'', dquote] @ ''id1'' @ [dquote] @ '': 0}''
                                     then [Str ''id1''] else [])\<rparr>"

text \<open>
  A plain name is a single path component: not empty, not \<^verbatim>\<open>.\<close> or \<^verbatim>\<open>..\<close>, and free
  of the characters \<^verbatim>\<open>< > : " / \ | ? *\<close> (so it holds no separator and no drive
  letter). A direct child of a directory is the directory joined with a plain name.
\<close>

definition plain_name :: "string \<Rightarrow> bool" where
  "plain_name n =
     (n \<noteq> [] \<and> n \<noteq> ''.'' \<and> n \<noteq> ''..'' \<and> set n \<inter> set INVALID_FS_CHARS = {})"

definition child_of :: "path \<Rightarrow> path \<Rightarrow> bool" where
  "child_of dest p = (\<exists>n. p = dest @ [n] \<and> plain_name n)"

text \<open>
  Frame conditions. \<open>tree_only w w'\<close>: from \<open>w\<close> to \<open>w'\<close> only the tree, the console and
  the read marks may differ, and the console only grows. \<open>frame dest X w w'\<close>: moreover
  the directories and the read marks are the same, and every path whose file content
  differs is a direct child of \<open>dest\<close> that did not exist in \<open>w\<close> or belongs to \<open>X\<close>.
\<close>

definition tree_only :: "world \<Rightarrow> world \<Rightarrow> bool" where
  "tree_only w w' =
     (unwritable w' = unwritable w \<and> undeletable w' = undeletable w \<and> resolve w' = resolve w
      \<and> log_text w' = log_text w \<and> log_locked w' = log_locked w
      \<and> lock_mtime w' = lock_mtime w \<and> lock_undeletable w' = lock_undeletable w
      \<and> clock w' = clock w \<and> json_other w' = json_other w \<and> dumps_other w' = dumps_other w
      \<and> (\<exists>c. console w' = console w @ c))"

definition frame :: "path \<Rightarrow> path set \<Rightarrow> world \<Rightarrow> world \<Rightarrow> bool" where
  "frame dest X w w' =
     (tree_only w w' \<and> dirs w' = dirs w \<and> marked_read w' = marked_read w
      \<and> (\<forall>p. map_of (files w') p \<noteq> map_of (files w) p \<longrightarrow>
             child_of dest p \<and> (map_of (files w) p = None \<or> p \<in> X)))"

text \<open>
  A destination directory \<^verbatim>\<open>d\<close>, the same with a link at \<^verbatim>\<open>d/evil.txt\<close> that
  resolves elsewhere, and an archive with hostile member names.
\<close>

definition dest_world :: world where
  "dest_world = empty_world\<lparr>dirs := [[''d'']]\<rparr>"

definition linked_world :: world where
  "linked_world =
     dest_world\<lparr>resolve := (\<lambda>p. if p = [''d'', ''evil.txt''] then Inr [''elsewhere'', ''evil.txt''] else Inr p)\<rparr>"

definition evil_members :: "member list" where
  "evil_members =
     [(''../../evil.txt'', Data (Raw ''1'')), (''/etc/passed.txt'', Data (Raw ''2'')),
      (''sub/'', Data (Raw [])), (''ok.txt'', Data (Raw ''3''))]"





text \<open>
  Worlds with a lock marker: a fresh one, a stale one, a stale one in front of a run that
  raises (a file stands where the folder of the item should be), and a stale one that
  cannot be removed.
\<close>

definition fresh_lock_world :: world where
  "fresh_lock_world = empty_world\<lparr>lock_mtime := Some 100, clock := 1000\<rparr>"

definition stale_lock_world :: world where
  "stale_lock_world = empty_world\<lparr>lock_mtime := Some 0, clock := 1000\<rparr>"

definition blocked_world :: world where
  "blocked_world = stale_lock_world\<lparr>files := [(BASE_DIR @ [''FW SR12345678''], Raw ''x'')]\<rparr>"

definition stuck_lock_world :: world where
  "stuck_lock_world = empty_world\<lparr>lock_mtime := Some 0, lock_undeletable := True, clock := 1000\<rparr>"






section \<open>Facts about the sanitizer\<close>

lemma code_simps:
  "code c = of_char c"
  by (simp add: code_def)

text \<open>
  C3. The claim asks of both sanitizers a result of at most 150 characters with no trailing
  dot or space. \<^const>\<open>safe_folder_name\<close> truncates and then strips the trailing dots and
  spaces; \<^const>\<open>safe_file_name\<close> strips first and truncates (and collapses whitespace)
  afterwards, so its result can end in a dot or in a space. For an attachment named by
  149 letters \<^verbatim>\<open>a\<close> followed by \<^verbatim>\<open>.txt\<close> the file sanitizer returns the 149 letters
  followed by the dot, while the folder sanitizer on the same text returns the 149 letters
  alone; for the name \<^verbatim>\<open>a<TAB>.\<close> the file sanitizer returns \<^verbatim>\<open>a\<close> followed by a
  space.
\<close>

theorem safe_file_name_trailing_dot:
  "safe_file_name (replicate 149 CHR ''a'' @ ''.txt'') = replicate 149 CHR ''a'' @ ''.''
   \<and> last (safe_file_name (replicate 149 CHR ''a'' @ ''.txt'')) = CHR ''.''
   \<and> safe_folder_name (replicate 149 CHR ''a'' @ ''.txt'') = replicate 149 CHR ''a''
   \<and> safe_file_name [CHR ''a'', CHR 0x09, CHR ''.''] = ''a ''"
  by code_simp

section \<open>The matcher and the subject patterns\<close>

lemma last_opt_Nil [simp]: "last_opt prev [] = prev"
  by (simp add: last_opt_def)

lemma last_opt_Cons [simp]: "last_opt prev (c # ys) = last_opt (Some c) ys"
  by (simp add: last_opt_def)

lemma last_opt_append [simp]: "last_opt prev (xs @ ys) = last_opt (last_opt prev xs) ys"
  by (simp add: last_opt_def)

lemma rep_ends_iff:
  "(p, r) \<in> set (rep_ends P n prev s) \<longleftrightarrow>
     (\<exists>ys. s = ys @ r \<and> n \<le> length ys \<and> list_all P ys \<and> p = last_opt prev ys)"
proof (induction s arbitrary: n prev)
  case Nil
  then show ?case by auto
next
  case (Cons c cs)
  have "(\<exists>ys. c # cs = ys @ r \<and> n \<le> length ys \<and> list_all P ys \<and> p = last_opt prev ys)
        \<longleftrightarrow> (n = 0 \<and> r = c # cs \<and> p = prev)
          \<or> (\<exists>ys'. cs = ys' @ r \<and> n - 1 \<le> length ys' \<and> P c \<and> list_all P ys' \<and> p = last_opt (Some c) ys')"
    (is "?L \<longleftrightarrow> ?A \<or> ?B")
  proof
    assume ?L
    then obtain ys where ys: "c # cs = ys @ r" "n \<le> length ys" "list_all P ys" "p = last_opt prev ys"
      by blast
    show "?A \<or> ?B"
    proof (cases ys)
      case Nil
      with ys show ?thesis by simp
    next
      case (Cons y ys')
      with ys have "cs = ys' @ r" "n - 1 \<le> length ys'" "P c" "list_all P ys'" "p = last_opt (Some c) ys'"
        by auto
      then show ?thesis by blast
    qed
  next
    assume "?A \<or> ?B"
    then show ?L
    proof
      assume ?A
      then have "c # cs = [] @ r \<and> n \<le> length ([]::string) \<and> list_all P [] \<and> p = last_opt prev []"
        by simp
      then show ?L by blast
    next
      assume ?B
      then obtain ys' where "cs = ys' @ r" "n - 1 \<le> length ys'" "P c" "list_all P ys'" "p = last_opt (Some c) ys'"
        by blast
      then have "c # cs = (c # ys') @ r \<and> n \<le> length (c # ys') \<and> list_all P (c # ys') \<and> p = last_opt prev (c # ys')"
        by auto
      then show ?L by blast
    qed
  qed
  moreover have "(p, r) \<in> set (rep_ends P n prev (c # cs)) \<longleftrightarrow> ?A \<or> ?B"
    using Cons.IH [of "n - 1" "Some c"] by auto
  ultimately show ?case by blast
qed

lemma code_lower_char:
  "code (lower_char c) =
     (if (65 \<le> code c \<and> code c \<le> 90) \<or> (192 \<le> code c \<and> code c \<le> 222 \<and> code c \<noteq> 215)
      then code c + 32 else code c)"
  by (simp add: lower_char_def code_def)

lemma code_inj: "code a = code b \<Longrightarrow> a = b"
  by (simp add: code_def)

lemma char_eq_code: "c = d \<longleftrightarrow> code c = code d"
  using code_inj by auto

lemma lower_char_eq_iff:
  "lower_char c = d \<longleftrightarrow>
     (if (65 \<le> code c \<and> code c \<le> 90) \<or> (192 \<le> code c \<and> code c \<le> 222 \<and> code c \<noteq> 215)
      then code c + 32 = code d else c = d)"
proof -
  have "lower_char c = d \<longleftrightarrow> code (lower_char c) = code d"
    using code_inj by auto
  then show ?thesis
    by (auto simp: code_lower_char dest: code_inj)
qed

lemma lower_s: "lower_char c = CHR ''s'' \<longleftrightarrow> c = CHR ''s'' \<or> c = CHR ''S''"
  by (auto simp: lower_char_eq_iff char_eq_code [of c] code_simps split: if_splits)

lemma lower_colon: "lower_char c = CHR '':'' \<longleftrightarrow> c = CHR '':''"
  by (auto simp: lower_char_eq_iff char_eq_code [of c] code_simps split: if_splits)

lemma lower_lbr: "lower_char c = CHR ''['' \<longleftrightarrow> c = CHR ''[''"
  by (auto simp: lower_char_eq_iff char_eq_code [of c] code_simps split: if_splits)

lemma lower_rbr: "lower_char c = CHR '']'' \<longleftrightarrow> c = CHR '']''"
  by (auto simp: lower_char_eq_iff char_eq_code [of c] code_simps split: if_splits)

lemma lower_consts:
  "lower_char CHR ''S'' = CHR ''s''" "lower_char CHR ''R'' = CHR ''r''" "lower_char CHR ''E'' = CHR ''e''"
  "lower_char CHR '':'' = CHR '':''" "lower_char CHR ''['' = CHR ''[''" "lower_char CHR '']'' = CHR '']''"
  by (simp_all add: char_eq_code code_lower_char) (simp_all add: code_def)

lemma digit_is_word: "is_digit c \<Longrightarrow> is_word c"
  by (simp add: is_word_def)

lemma sr_is_word: "lower_char c = CHR ''s'' \<Longrightarrow> is_word c"
  by (auto simp: lower_s is_word_def is_alpha_def code_def)

lemma ne_iff: "xs \<noteq> [] \<longleftrightarrow> (\<exists>x. x \<in> set xs)"
  by (cases xs) auto

lemma ends_Lit_iff:
  "(p, r) \<in> set (ends (Lit c) prev s) \<longleftrightarrow> (\<exists>x. s = x # r \<and> lower_char x = lower_char c \<and> p = Some x)"
  by (cases s) auto

lemma ends_Then_iff:
  "(p, r) \<in> set (ends (Then a b) prev s) \<longleftrightarrow>
     (\<exists>p1 r1. (p1, r1) \<in> set (ends a prev s) \<and> (p, r) \<in> set (ends b p1 r1))"
  by auto

lemma ends_ThenI:
  "(p1, r1) \<in> set (ends a prev s) \<Longrightarrow> (p, r) \<in> set (ends b p1 r1)
   \<Longrightarrow> (p, r) \<in> set (ends (Then a b) prev s)"
  by (auto simp: ends_Then_iff)

lemma ends_Opt_iff:
  "(p, r) \<in> set (ends (Opt a) prev s) \<longleftrightarrow> (p, r) \<in> set (ends a prev s) \<or> (p = prev \<and> r = s)"
  by auto

lemma ends_Rep_iff:
  "(p, r) \<in> set (ends (Rep k n) prev s) \<longleftrightarrow>
     (\<exists>ys. s = ys @ r \<and> n \<le> length ys \<and> list_all (in_cls k) ys \<and> p = last_opt prev ys)"
  by (simp add: rep_ends_iff)

lemma ends_Bol_iff:
  "(p, r) \<in> set (ends Bol prev s) \<longleftrightarrow> prev = None \<and> p = None \<and> r = s"
  by auto

lemma ends_WordB_iff:
  "(p, r) \<in> set (ends WordB prev s) \<longleftrightarrow> word_opt prev \<noteq> word_opt (next_char s) \<and> p = prev \<and> r = s"
  by auto

lemma search_from_iff:
  "search_from r prev s \<longleftrightarrow> (\<exists>pre rest. s = pre @ rest \<and> ends r (last_opt prev pre) rest \<noteq> [])"
proof (induction s arbitrary: prev)
  case Nil
  then show ?case by simp
next
  case (Cons c cs)
  have "(\<exists>pre rest. c # cs = pre @ rest \<and> ends r (last_opt prev pre) rest \<noteq> [])
        \<longleftrightarrow> ends r prev (c # cs) \<noteq> []
            \<or> (\<exists>pre' rest. cs = pre' @ rest \<and> ends r (last_opt (Some c) pre') rest \<noteq> [])"
    (is "?L \<longleftrightarrow> ?A \<or> ?B")
  proof
    assume ?L
    then obtain pre rest where h: "c # cs = pre @ rest" "ends r (last_opt prev pre) rest \<noteq> []"
      by blast
    show "?A \<or> ?B"
    proof (cases pre)
      case Nil
      with h show ?thesis by simp
    next
      case (Cons x pre')
      with h have "cs = pre' @ rest \<and> ends r (last_opt (Some c) pre') rest \<noteq> []"
        by simp
      then show ?thesis by blast
    qed
  next
    assume "?A \<or> ?B"
    then show ?L
    proof
      assume ?A
      then have "c # cs = [] @ (c # cs) \<and> ends r (last_opt prev []) (c # cs) \<noteq> []"
        by simp
      then show ?L by blast
    next
      assume ?B
      then obtain pre' rest where "cs = pre' @ rest" "ends r (last_opt (Some c) pre') rest \<noteq> []"
        by blast
      then have "c # cs = (c # pre') @ rest \<and> ends r (last_opt prev (c # pre')) rest \<noteq> []"
        by simp
      then show ?L by blast
    qed
  qed
  then show ?case
    by (simp add: Cons.IH)
qed

lemma word_opt_simps [simp]: "word_opt None = False" "word_opt (Some c) = is_word c"
  by (simp_all add: word_opt_def)

lemma next_char_simps [simp]: "next_char [] = None" "next_char (c # cs) = Some c"
  by (simp_all add: next_char_def)

lemma in_cls_eta [simp]: "in_cls Digit = is_digit" "in_cls Space = is_space"
  by (auto simp: fun_eq_iff)

lemma word_next: "word_opt (next_char post) \<longleftrightarrow> post \<noteq> [] \<and> is_word (hd post)"
  by (cases post) auto

lemma word_last_digits:
  "list_all is_digit ds \<Longrightarrow> ds \<noteq> [] \<Longrightarrow> word_opt (last_opt p ds)"
  by (simp add: last_opt_def list_all_iff digit_is_word)

lemma ends_SR_iff:
  "ends SR_SUBJECT_PATTERN prev s \<noteq> [] \<longleftrightarrow>
     (\<exists>c1 c2 ds post. s = c1 # c2 # ds @ post
        \<and> lower_char c1 = CHR ''s'' \<and> lower_char c2 = CHR ''r''
        \<and> 8 \<le> length ds \<and> list_all is_digit ds
        \<and> \<not> word_opt prev \<and> (post = [] \<or> \<not> is_word (hd post)))"
  (is "?L \<longleftrightarrow> ?R")
proof
  assume ?L
  then obtain p r where "(p, r) \<in> set (ends SR_SUBJECT_PATTERN prev s)"
    by (auto simp: ne_iff)
  then obtain c1 c2 ds where h:
    "word_opt prev \<noteq> word_opt (next_char s)" "s = c1 # c2 # ds @ r"
    "lower_char c1 = CHR ''s''" "lower_char c2 = CHR ''r''"
    "8 \<le> length ds" "list_all is_digit ds"
    "word_opt (last_opt (Some c2) ds) \<noteq> word_opt (next_char r)"
    unfolding SR_SUBJECT_PATTERN_def ends_Then_iff ends_WordB_iff ends_Lit_iff ends_Rep_iff lower_consts in_cls_eta
    by auto
  from h have "\<not> word_opt prev"
    by (simp add: sr_is_word)
  moreover from h have "ds \<noteq> []" by auto
  with h have "r = [] \<or> \<not> is_word (hd r)"
    using word_last_digits [of ds "Some c2"] by (simp add: word_next)
  ultimately show ?R using h by blast
next
  assume ?R
  then obtain c1 c2 ds post where h: "s = c1 # c2 # ds @ post"
    "lower_char c1 = CHR ''s''" "lower_char c2 = CHR ''r''"
    "8 \<le> length ds" "list_all is_digit ds" "\<not> word_opt prev" "post = [] \<or> \<not> is_word (hd post)"
    by blast
  from h have "ds \<noteq> []" by auto
  with h have w: "word_opt (last_opt (Some c2) ds) \<noteq> word_opt (next_char post)"
    using word_last_digits [of ds "Some c2"] by (simp add: word_next)
  have b: "word_opt prev \<noteq> word_opt (next_char s)"
    using h by (simp add: sr_is_word)
  have "(last_opt (Some c2) ds, post) \<in> set (ends SR_SUBJECT_PATTERN prev s)"
    unfolding SR_SUBJECT_PATTERN_def ends_Then_iff ends_WordB_iff ends_Lit_iff ends_Rep_iff lower_consts in_cls_eta
    using h w b by auto
  then show ?L by (auto simp: ne_iff)
qed

lemma last_opt_None_iff: "word_opt (last_opt None pre) \<longleftrightarrow> pre \<noteq> [] \<and> is_word (last pre)"
  by (simp add: last_opt_def)

text \<open>The tracking-number pattern finds a match exactly in the subjects that hold the token.\<close>

lemma search_SR_iff: "search SR_SUBJECT_PATTERN s \<longleftrightarrow> has_sr_token s"
  unfolding search_def search_from_iff ends_SR_iff has_sr_token_def last_opt_None_iff
  by (simp only: de_Morgan_conj not_not ex_simps conj_assoc) blast

lemma ends_bracket_iff:
  "(\<exists>p. (p, r) \<in> set (ends bracket_re p0 s0)) \<longleftrightarrow> (\<exists>br. s0 = br @ r \<and> reply_bracket br)"
  (is "?L \<longleftrightarrow> ?R")
proof
  assume ?L
  then obtain p where "(p, r) \<in> set (ends bracket_re p0 s0)" by blast
  then consider "r = s0" | ds where "s0 = CHR ''['' # ds @ CHR '']'' # r" "1 \<le> length ds" "list_all is_digit ds"
    unfolding bracket_re_def ends_Opt_iff ends_Then_iff ends_Lit_iff ends_Rep_iff lower_consts in_cls_eta lower_lbr lower_rbr
    by auto
  then show ?R
  proof cases
    case 1
    then have "s0 = [] @ r \<and> reply_bracket []" by (simp add: reply_bracket_def)
    then show ?thesis by blast
  next
    case 2
    then have "s0 = (CHR ''['' # ds @ '']'') @ r \<and> reply_bracket (CHR ''['' # ds @ '']'')"
      by (auto simp: reply_bracket_def)
    then show ?thesis by blast
  qed
next
  assume ?R
  then obtain br where br: "s0 = br @ r" "reply_bracket br" by blast
  then consider "br = []" | ds where "ds \<noteq> []" "list_all is_digit ds" "br = CHR ''['' # ds @ '']''"
    by (auto simp: reply_bracket_def)
  then show ?L
  proof cases
    case 1
    with br have "(p0, r) \<in> set (ends bracket_re p0 s0)"
      by (simp add: bracket_re_def)
    then show ?thesis by blast
  next
    case 2
    with br have "(Some CHR '']'', r) \<in> set (ends bracket_re p0 s0)"
      unfolding bracket_re_def ends_Opt_iff ends_Then_iff ends_Lit_iff ends_Rep_iff lower_consts in_cls_eta lower_lbr lower_rbr
      by (auto simp: Suc_le_eq)
    then show ?thesis by blast
  qed
qed

lemma RE_PREFIX_unfold:
  "RE_PREFIX =
     Then Bol (Then (Rep Space 0) (Then (Lit CHR ''R'') (Then (Lit CHR ''E'')
       (Then (Rep Space 0) (Then bracket_re (Then (Rep Space 0) (Lit CHR '':'')))))))"
  by (simp add: RE_PREFIX_def bracket_re_def)

lemma ends_RE_iff:
  "ends RE_PREFIX prev s \<noteq> [] \<longleftrightarrow> prev = None \<and> has_reply_prefix s"
  (is "?L \<longleftrightarrow> ?R")
proof
  assume ?L
  then obtain p r where "(p, r) \<in> set (ends RE_PREFIX prev s)"
    by (auto simp: ne_iff)
  then obtain ws1 c1 c2 ws2 p4 s4 p5 s5 ws3 where h:
    "prev = None" "s = ws1 @ c1 # c2 # ws2 @ s4"
    "list_all is_space ws1" "lower_char c1 = CHR ''r''" "lower_char c2 = CHR ''e''"
    "list_all is_space ws2" "(p5, s5) \<in> set (ends bracket_re p4 s4)"
    "s5 = ws3 @ CHR '':'' # r" "list_all is_space ws3"
    unfolding RE_PREFIX_unfold ends_Then_iff ends_Bol_iff ends_Lit_iff ends_Rep_iff lower_consts in_cls_eta lower_colon
    by auto
  from h(7) obtain br where br: "s4 = br @ s5" "reply_bracket br"
    using ends_bracket_iff [of s5 p4 s4] by blast
  have "s = ws1 @ c1 # c2 # ws2 @ br @ ws3 @ CHR '':'' # r"
    using h br by simp
  with h br have "has_reply_prefix s"
    unfolding has_reply_prefix_def by blast
  with h show ?R by simp
next
  assume ?R
  then obtain ws1 c1 c2 ws2 br ws3 rest where h: "prev = None"
    "s = ws1 @ c1 # c2 # ws2 @ br @ ws3 @ CHR '':'' # rest"
    "list_all is_space ws1" "list_all is_space ws2" "list_all is_space ws3"
    "lower_char c1 = CHR ''r''" "lower_char c2 = CHR ''e''" "reply_bracket br"
    unfolding has_reply_prefix_def by blast
  obtain p5 where p5: "(p5, ws3 @ CHR '':'' # rest) \<in> set (ends bracket_re (last_opt (Some c2) ws2) (br @ ws3 @ CHR '':'' # rest))"
    using ends_bracket_iff [of "ws3 @ CHR '':'' # rest" "last_opt (Some c2) ws2" "br @ ws3 @ CHR '':'' # rest"] h(8)
    by blast
  define s1 where "s1 = c1 # c2 # ws2 @ br @ ws3 @ CHR '':'' # rest"
  define s2 where "s2 = c2 # ws2 @ br @ ws3 @ CHR '':'' # rest"
  define s3 where "s3 = ws2 @ br @ ws3 @ CHR '':'' # rest"
  define s4 where "s4 = br @ ws3 @ CHR '':'' # rest"
  define s5 where "s5 = ws3 @ CHR '':'' # rest"
  define s6 where "s6 = CHR '':'' # rest"
  have e0: "(None, s) \<in> set (ends Bol prev s)"
    using h(1) by simp
  have e1: "(last_opt None ws1, s1) \<in> set (ends (Rep Space 0) None s)"
    unfolding ends_Rep_iff in_cls_eta using h by (auto simp: s1_def)
  have e2: "(Some c1, s2) \<in> set (ends (Lit CHR ''R'') (last_opt None ws1) s1)"
    unfolding ends_Lit_iff lower_consts using h by (simp add: s1_def s2_def)
  have e3: "(Some c2, s3) \<in> set (ends (Lit CHR ''E'') (Some c1) s2)"
    unfolding ends_Lit_iff lower_consts using h by (simp add: s2_def s3_def)
  have e4: "(last_opt (Some c2) ws2, s4) \<in> set (ends (Rep Space 0) (Some c2) s3)"
    unfolding ends_Rep_iff in_cls_eta using h by (auto simp: s3_def s4_def)
  have e5: "(p5, s5) \<in> set (ends bracket_re (last_opt (Some c2) ws2) s4)"
    using p5 by (simp add: s4_def s5_def)
  have e6: "(last_opt p5 ws3, s6) \<in> set (ends (Rep Space 0) p5 s5)"
    unfolding ends_Rep_iff in_cls_eta using h by (auto simp: s5_def s6_def)
  have e7: "(Some CHR '':'', rest) \<in> set (ends (Lit CHR '':'') (last_opt p5 ws3) s6)"
    unfolding ends_Lit_iff by (simp add: s6_def lower_consts)
  have "(Some CHR '':'', rest) \<in> set (ends RE_PREFIX prev s)"
    unfolding RE_PREFIX_unfold
    by (rule ends_ThenI [OF e0], rule ends_ThenI [OF e1], rule ends_ThenI [OF e2],
        rule ends_ThenI [OF e3], rule ends_ThenI [OF e4], rule ends_ThenI [OF e5],
        rule ends_ThenI [OF e6], rule e7)
  then show ?L by (auto simp: ne_iff)
qed

text \<open>The reply pattern finds a match exactly in the subjects that begin with the reply prefix.\<close>

lemma search_RE_iff: "search RE_PREFIX s \<longleftrightarrow> has_reply_prefix s"
proof -
  have "search RE_PREFIX s \<longleftrightarrow> (\<exists>pre rest. s = pre @ rest \<and> last_opt None pre = None \<and> has_reply_prefix rest)"
    unfolding search_def search_from_iff ends_RE_iff ..
  also have "\<dots> \<longleftrightarrow> has_reply_prefix s"
    by (auto simp: last_opt_def)
  finally show ?thesis .
qed

lemma not_literal_reply_prefix: "\<not> literal_reply_prefix ''RE : SR12345678''"
  by (auto simp: literal_reply_prefix_def reply_bracket_def Cons_eq_append_conv append_eq_Cons_conv
      is_space_def code_def)

section \<open>Classification\<close>

lemma sr_examples:
  "search SR_SUBJECT_PATTERN ''Project SR12345678 update''"
  "search SR_SUBJECT_PATTERN ''FW: SR12345678''"
  "\<not> search SR_SUBJECT_PATTERN ''SR1234''"
  "search SR_SUBJECT_PATTERN ''RE : SR12345678''"
  by code_simp+

lemma re_examples:
  "\<not> search RE_PREFIX ''Project SR12345678 update''"
  "\<not> search RE_PREFIX ''FW: SR12345678''"
  "search RE_PREFIX ''RE: SR12345678 update''"
  "search RE_PREFIX ''RE[2]: SR12345678''"
  by code_simp+

text \<open>
  C1 (as amended). A candidate is accepted for processing, with its subject and identifier,
  if and only if it is a mail item (class 43) whose subject and identifier can be read,
  its identifier is not in the processed set, its subject contains as a whole word the
  case-insensitive token SR followed by at least 8 digits, and its subject does not begin,
  after optional whitespace, with a case-insensitive RE followed by optional whitespace,
  an optional bracketed number, optional whitespace and a colon. In particular the
  subjects \<^verbatim>\<open>Project SR12345678 update\<close> and \<^verbatim>\<open>FW: SR12345678\<close> hold the token and no
  reply prefix, \<^verbatim>\<open>RE: SR12345678 update\<close> and \<^verbatim>\<open>RE[2]: SR12345678\<close> begin with the
  reply prefix, and \<^verbatim>\<open>SR1234\<close> does not hold the token.
\<close>

theorem classify_accepts_iff:
  "(classify seen m = Accepted subject entry_id \<longleftrightarrow>
      Class m = Some 43 \<and> Subject m = Inr subject \<and> EntryID m = Inr entry_id
      \<and> Str entry_id \<notin> seen \<and> has_sr_token subject \<and> \<not> has_reply_prefix subject)
   \<and> has_sr_token ''Project SR12345678 update'' \<and> \<not> has_reply_prefix ''Project SR12345678 update''
   \<and> has_sr_token ''FW: SR12345678'' \<and> \<not> has_reply_prefix ''FW: SR12345678''
   \<and> has_reply_prefix ''RE: SR12345678 update''
   \<and> has_reply_prefix ''RE[2]: SR12345678''
   \<and> \<not> has_sr_token ''SR1234''"
proof -
  have "classify seen m = Accepted subject entry_id \<longleftrightarrow>
      Class m = Some 43 \<and> Subject m = Inr subject \<and> EntryID m = Inr entry_id
      \<and> Str entry_id \<notin> seen \<and> has_sr_token subject \<and> \<not> has_reply_prefix subject"
    by (auto simp: classify_def search_SR_iff search_RE_iff split: sum.splits)
  then show ?thesis
    using sr_examples re_examples by (simp add: search_SR_iff search_RE_iff)
qed

text \<open>
  An instance: the forwarded item is accepted when its identifier is new and skipped when
  it is in the processed set; the reply and the short number are ignored.
\<close>

theorem classify_accepts_witness:
  "classify {Str ''id0''} (sample_mail ''FW: SR12345678'' ''id1'') = Accepted ''FW: SR12345678'' ''id1''
   \<and> classify {Str ''id1''} (sample_mail ''FW: SR12345678'' ''id1'') = AlreadySeen
   \<and> classify {} (sample_mail ''RE[2]: SR12345678'' ''id1'') = Reply
   \<and> classify {} (sample_mail ''SR1234'' ''id1'') = NoTrackingNumber"
proof -
  have "classify {Str ''id0''} (sample_mail ''FW: SR12345678'' ''id1'') = Accepted ''FW: SR12345678'' ''id1''"
    using classify_accepts_iff [of "{Str ''id0''}" "sample_mail ''FW: SR12345678'' ''id1''" "''FW: SR12345678''" "''id1''"]
    by (simp add: sample_mail_def)
  moreover have "classify {Str ''id1''} (sample_mail ''FW: SR12345678'' ''id1'') = AlreadySeen"
    by code_simp
  moreover have "classify {} (sample_mail ''RE[2]: SR12345678'' ''id1'') = Reply"
    by code_simp
  moreover have "classify {} (sample_mail ''SR1234'' ''id1'') = NoTrackingNumber"
    by code_simp
  ultimately show ?thesis by simp
qed

text \<open>
  The claim as first stated fails on the subject \<^verbatim>\<open>RE : SR12345678\<close>: it holds the token
  and does not begin with \<^verbatim>\<open>RE:\<close> or \<^verbatim>\<open>RE[n]:\<close>, yet the item is ignored as a reply,
  because the pattern allows whitespace before the colon.
\<close>

theorem literal_reply_prefix_counterexample:
  "has_sr_token ''RE : SR12345678'' \<and> \<not> literal_reply_prefix ''RE : SR12345678''
   \<and> classify {} (sample_mail ''RE : SR12345678'' ''id1'') = Reply"
proof -
  have "classify {} (sample_mail ''RE : SR12345678'' ''id1'') = Reply"
    by code_simp
  then show ?thesis
    using sr_examples(4) not_literal_reply_prefix by (simp add: search_SR_iff)
qed

section \<open>Collision avoidance\<close>

lemma unique_loop_first_free:
  "\<exists>j. i \<le> j \<and> unique_loop w p stem suffix i = candidate p stem suffix j
       \<and> \<not> path_exists w (candidate p stem suffix j)
       \<and> (\<forall>k. i \<le> k \<and> k < j \<longrightarrow> path_exists w (candidate p stem suffix k))"
proof (induction w p stem suffix i rule: unique_loop.induct)
  case (1 w p stem suffix i)
  show ?case
  proof (cases "path_exists w (candidate p stem suffix i)")
    case False
    then have "unique_loop w p stem suffix i = candidate p stem suffix i"
      by (subst unique_loop.simps) simp
    with False show ?thesis by (intro exI [of _ i]) auto
  next
    case True
    then have u: "unique_loop w p stem suffix i = unique_loop w p stem suffix (i + 1)"
      by (subst unique_loop.simps) simp
    from "1.IH" [OF refl] True obtain j where j: "i + 1 \<le> j"
      "unique_loop w p stem suffix (i + 1) = candidate p stem suffix j"
      "\<not> path_exists w (candidate p stem suffix j)"
      "\<forall>k. i + 1 \<le> k \<and> k < j \<longrightarrow> path_exists w (candidate p stem suffix k)"
      by auto
    have "\<forall>k. i \<le> k \<and> k < j \<longrightarrow> path_exists w (candidate p stem suffix k)"
    proof (intro allI impI)
      fix k assume "i \<le> k \<and> k < j"
      then consider "k = i" | "i + 1 \<le> k \<and> k < j" by force
      then show "path_exists w (candidate p stem suffix k)"
        using True j(4) by cases auto
    qed
    with j u show ?thesis by (intro exI [of _ j]) auto
  qed
qed

lemma stem_suffix: "path_stem p @ path_suffix p = name_of p"
  by (simp add: path_stem_def path_suffix_def Let_def split: option.splits)

text \<open>
  C6. \<^verbatim>\<open>unique_path(p)\<close> returns \<open>p\<close> itself when nothing exists at \<open>p\<close>. Otherwise it
  returns a path in the same directory whose name is the stem of \<open>p\<close>, an underscore,
  the decimal numeral of some \<open>i \<ge> 2\<close> and the extension of \<open>p\<close> (stem and extension
  together are the name of \<open>p\<close>), where every such path with a smaller number from 2 on
  exists. In both cases nothing exists at the returned path. The function is total: its
  loop always ends.
\<close>

theorem unique_path_first_free:
  "(\<not> path_exists w p \<longrightarrow> unique_path w p = p)
   \<and> (path_exists w p \<longrightarrow>
        (\<exists>i. 2 \<le> i
           \<and> unique_path w p = butlast p @ [path_stem p @ ''_'' @ str_nat i @ path_suffix p]
           \<and> (\<forall>k. 2 \<le> k \<and> k < i \<longrightarrow>
                path_exists w (butlast p @ [path_stem p @ ''_'' @ str_nat k @ path_suffix p]))))
   \<and> path_stem p @ path_suffix p = name_of p
   \<and> \<not> path_exists w (unique_path w p)"
proof (cases "path_exists w p")
  case False
  then show ?thesis by (simp add: unique_path_def stem_suffix)
next
  case True
  obtain j where j: "2 \<le> j"
    "unique_loop w p (path_stem p) (path_suffix p) 2 = candidate p (path_stem p) (path_suffix p) j"
    "\<not> path_exists w (candidate p (path_stem p) (path_suffix p) j)"
    "\<forall>k. 2 \<le> k \<and> k < j \<longrightarrow> path_exists w (candidate p (path_stem p) (path_suffix p) k)"
    using unique_loop_first_free [of 2 w p "path_stem p" "path_suffix p"] by blast
  from True j have "unique_path w p = candidate p (path_stem p) (path_suffix p) j"
    by (simp add: unique_path_def)
  with True j show ?thesis
    unfolding candidate_def with_name_def
    by (auto simp: stem_suffix)
qed

text \<open>
  An instance: with \<^verbatim>\<open>d/a.txt\<close> and \<^verbatim>\<open>d/a_2.txt\<close> present, \<^verbatim>\<open>d/a.txt\<close> becomes
  \<^verbatim>\<open>d/a_3.txt\<close> and \<^verbatim>\<open>d/b.txt\<close> stays as it is.
\<close>

theorem unique_path_witness:
  "path_exists taken_world [''d'', ''a.txt'']
   \<and> unique_path taken_world [''d'', ''a.txt''] = [''d'', ''a_3.txt'']
   \<and> \<not> path_exists taken_world (unique_path taken_world [''d'', ''a.txt''])
   \<and> unique_path taken_world [''d'', ''b.txt''] = [''d'', ''b.txt'']"
proof -
  have "path_exists taken_world [''d'', ''a.txt'']"
    by code_simp
  moreover have "unique_path taken_world [''d'', ''a.txt''] = [''d'', ''a_3.txt'']"
    by code_simp
  moreover have "\<not> path_exists taken_world [''d'', ''b.txt'']"
    by code_simp
  ultimately show ?thesis
    using unique_path_first_free [of taken_world "[''d'', ''a.txt'']"]
      unique_path_first_free [of taken_world "[''d'', ''b.txt'']"]
    by simp
qed

section \<open>The processed-set store round-trips\<close>

lemma hex_table: "list_all (\<lambda>n. hex_val (hex_digit n) = Some n) [0 ..< 16]"
  by code_simp

lemma hex_val_digit: "n < 16 \<Longrightarrow> hex_val (hex_digit n) = Some n"
  using hex_table by (simp add: list_all_iff)

lemma code_less: "code c < 256"
  by (simp add: code_def)

lemma char_of_code: "char_of (code c) = c"
  by (simp add: code_def)

lemma parse_hex4_esc:
  "parse_hex4 (CHR ''0'' # CHR ''0'' # hex_digit (code c div 16) # hex_digit (code c mod 16) # rest)
   = Some (code c)"
proof -
  have "code c div 16 < 16" using code_less [of c] by simp
  moreover have "code c mod 16 < 16" by simp
  moreover have "hex_val CHR ''0'' = Some 0" by (simp add: hex_val_def code_def)
  ultimately show ?thesis
    by (simp add: parse_hex4_def hex_val_digit)
qed

lemma special_chars:
  "bslash \<noteq> dquote" "dquote \<noteq> bslash" "code bslash = 92" "code dquote = 34"
  by (simp_all add: bslash_def dquote_def code_def)

lemma scanstring_esc: "scanstring (esc_char c @ rest) = push c (scanstring rest)"
proof -
  consider (q) "c = dquote" | (b) "c = bslash" | (n) "c = CHR 0x0A" | (r) "c = CHR 0x0D"
    | (t) "c = CHR 0x09" | (bs) "c = CHR 0x08" | (f) "c = CHR 0x0C"
    | (plain) "c \<noteq> dquote" "c \<noteq> bslash" "32 \<le> code c" "code c \<le> 126"
    | (u) "c \<noteq> dquote" "c \<noteq> bslash" "c \<noteq> CHR 0x0A" "c \<noteq> CHR 0x0D" "c \<noteq> CHR 0x09"
          "c \<noteq> CHR 0x08" "c \<noteq> CHR 0x0C" "\<not> (32 \<le> code c \<and> code c \<le> 126)"
    by blast
  then show ?thesis
  proof cases
    case q
    then show ?thesis by (simp add: esc_char_def unescape_def bslash_def dquote_def code_def)
  next
    case b
    then show ?thesis by (simp add: esc_char_def unescape_def bslash_def dquote_def code_def)
  next
    case n
    then show ?thesis by (simp add: esc_char_def unescape_def bslash_def dquote_def code_def)
  next
    case r
    then show ?thesis by (simp add: esc_char_def unescape_def bslash_def dquote_def code_def)
  next
    case t
    then show ?thesis by (simp add: esc_char_def unescape_def bslash_def dquote_def code_def)
  next
    case bs
    then show ?thesis by (simp add: esc_char_def unescape_def bslash_def dquote_def code_def)
  next
    case f
    then show ?thesis by (simp add: esc_char_def unescape_def bslash_def dquote_def code_def)
  next
    case plain
    then have "esc_char c = [c]"
      by (auto simp: esc_char_def code_def)
    with plain show ?thesis by (simp add: not_less [symmetric])
  next
    case u
    then have "esc_char c = [bslash, CHR ''u'', CHR ''0'', CHR ''0'', hex_digit (code c div 16), hex_digit (code c mod 16)]"
      by (simp add: esc_char_def)
    then show ?thesis
      using parse_hex4_esc [of c rest] code_less [of c]
      by (simp add: special_chars char_of_code)
  qed
qed

lemma scanstring_body:
  "scanstring (concat (map esc_char s) @ dquote # rest) = Some (s, rest)"
  by (induction s) (simp_all add: scanstring_esc push_def)


lemma skip_ws_encode [simp]: "skip_ws (encode_string x @ rest) = encode_string x @ rest"
  by (simp add: skip_ws_def encode_string_def json_ws_def dquote_def)

lemma skip_ws_bracket [simp]: "skip_ws (CHR '']'' # rest) = CHR '']'' # rest"
  by (simp add: skip_ws_def json_ws_def)

lemma skip_ws_comma_space [simp]:
  "skip_ws (CHR '','' # rest) = CHR '','' # rest"
  "skip_ws (CHR '' '' # rest) = skip_ws rest"
  by (simp_all add: skip_ws_def json_ws_def)

lemma parse_items_one:
  "parse_items (encode_string x @ CHR '']'' # rest) = Some ([x], rest)"
  by (subst parse_items.simps) (simp add: encode_string_def scanstring_body)

lemma parse_items_more:
  "parse_items (encode_string x @ '', '' @ encode_string y @ rest)
   = (case parse_items (encode_string y @ rest) of None \<Rightarrow> None | Some (xs, r) \<Rightarrow> Some (x # xs, r))"
  by (subst parse_items.simps) (simp add: encode_string_def [of x] scanstring_body)

lemma join_encode_starts:
  assumes "xs \<noteq> []"
  shows "\<exists>y ys. join '', '' (map encode_string xs) = encode_string y @ ys"
proof (cases xs)
  case Nil
  with assms show ?thesis by simp
next
  case (Cons x xs')
  show ?thesis unfolding Cons by (cases xs') auto
qed

lemma parse_items_join:
  "xs \<noteq> [] \<Longrightarrow> parse_items (join '', '' (map encode_string xs) @ CHR '']'' # rest) = Some (xs, rest)"
proof (induction xs rule: induct_list012)
  case 1
  then show ?case by simp
next
  case (2 x)
  then show ?case by (simp add: parse_items_one)
next
  case (3 x y zs)
  then have "parse_items (join '', '' (map encode_string (y # zs)) @ CHR '']'' # rest) = Some (y # zs, rest)"
    by simp
  moreover have "join '', '' (map encode_string (x # y # zs)) @ CHR '']'' # rest
      = encode_string x @ '', '' @ encode_string y @ (case zs of [] \<Rightarrow> [] | _ \<Rightarrow> '', '' @ join '', '' (map encode_string zs)) @ CHR '']'' # rest"
    by (cases zs) simp_all
  moreover have "join '', '' (map encode_string (y # zs)) @ CHR '']'' # rest
      = encode_string y @ (case zs of [] \<Rightarrow> [] | _ \<Rightarrow> '', '' @ join '', '' (map encode_string zs)) @ CHR '']'' # rest"
    by (cases zs) simp_all
  ultimately show ?case
    using parse_items_more [of x y "(case zs of [] \<Rightarrow> [] | _ \<Rightarrow> '', '' @ join '', '' (map encode_string zs)) @ CHR '']'' # rest"]
    by simp
qed

lemma loads_dumps: "loads (dumps xs) = Some xs"
proof (cases xs)
  case Nil
  then show ?thesis
    by (simp add: loads_def dumps_def skip_ws_def json_ws_def)
next
  case (Cons x xs')
  then obtain y ys where y: "join '', '' (map encode_string xs) = encode_string y @ ys"
    using join_encode_starts [of xs] by auto
  define B where "B = concat (map esc_char y) @ [dquote] @ ys @ '']''"
  have J: "join '', '' (map encode_string xs) @ '']'' = dquote # B"
    using y by (simp add: encode_string_def B_def)
  have p: "parse_items (dquote # B) = Some (xs, [])"
    using parse_items_join [of xs "[]"] Cons J by simp
  have "dumps xs = CHR ''['' # dquote # B"
    using J by (simp add: dumps_def)
  moreover have "loads (CHR ''['' # dquote # B) = Some xs"
    using p by (simp add: loads_def skip_ws_def json_ws_def dquote_def)
  ultimately show ?thesis by simp
qed


text \<open>
  C10. The processed set survives a save and a load: for every finite set \<open>s\<close> of
  identifiers (as a set of the program, the keys \<open>Str ` s\<close>) and every world in which the
  log file can be written and read, \<^verbatim>\<open>save_log\<close> returns normally, the text it writes
  is the JSON array of a sorted list without repetitions whose elements are exactly the
  set, and \<^verbatim>\<open>load_log\<close> on the world it leaves returns the set.
\<close>

theorem log_roundtrip:
  assumes "finite s" and "\<not> log_locked w"
  shows "fst (save_log w (Str ` s)) = None
         \<and> load_log (snd (save_log w (Str ` s))) = Str ` s
         \<and> (\<exists>xs. log_text (snd (save_log w (Str ` s))) = Some (dumps xs)
                 \<and> sorted xs \<and> distinct xs \<and> set xs = s)"
proof -
  let ?xs = "sorted_list_of_set s"
  have "the_str ` Str ` s = s"
    by (simp add: image_image)
  then have sv: "save_log w (Str ` s) = (None, w\<lparr>log_text := Some (dumps ?xs)\<rparr>)"
    using assms by (simp add: save_log_def sorted_dumps_def write_log_def)
  have "sorted ?xs" "distinct ?xs" "set ?xs = s"
    using assms by simp_all
  moreover have "load_log (snd (save_log w (Str ` s))) = Str ` set ?xs"
    using assms by (simp add: sv load_log_def loads_dumps)
  ultimately show ?thesis
    by (auto simp: sv)
qed

text \<open>An instance: the set of \<^verbatim>\<open>b\<close> and \<^verbatim>\<open>a\<close> is written as \<^verbatim>\<open>["a", "b"]\<close> and read back.\<close>

theorem log_roundtrip_witness:
  "finite {''b'', ''a''} \<and> \<not> log_locked empty_world
   \<and> load_log (snd (save_log empty_world {Str ''b'', Str ''a''})) = {Str ''b'', Str ''a''}
   \<and> log_text (snd (save_log empty_world {Str ''b'', Str ''a''}))
       = Some ([CHR ''['', dquote, CHR ''a'', dquote, CHR '','', CHR '' '', dquote, CHR ''b'', dquote, CHR '']''])"
proof -
  have "log_text (snd (save_log empty_world {Str ''b'', Str ''a''}))
       = Some ([CHR ''['', dquote, CHR ''a'', dquote, CHR '','', CHR '' '', dquote, CHR ''b'', dquote, CHR '']''])"
    by code_simp
  moreover have "\<not> log_locked empty_world"
    by (simp add: empty_world_def)
  ultimately show ?thesis
    using log_roundtrip [of "{''b'', ''a''}" empty_world] by simp
qed

section \<open>Idempotence of the run\<close>

lemma classify_Accepted_iff:
  "classify seen m = Accepted subject entry_id \<longleftrightarrow>
     Class m = Some 43 \<and> Subject m = Inr subject \<and> EntryID m = Inr entry_id
     \<and> search SR_SUBJECT_PATTERN subject \<and> \<not> search RE_PREFIX subject \<and> Str entry_id \<notin> seen"
  by (auto simp: classify_def split: sum.splits)

lemma process_items_not_accepted:
  "\<forall>subject entry_id. classify seen m \<noteq> Accepted subject entry_id
   \<Longrightarrow> process_items w seen n (m # rest) = process_items w seen n rest"
  by (cases "classify seen m") auto





lemma save_log_frame:
  "save_log w seen = (r, w') \<Longrightarrow>
     dirs w' = dirs w \<and> files w' = files w \<and> console w' = console w
     \<and> marked_read w' = marked_read w \<and> lock_mtime w' = lock_mtime w
     \<and> lock_undeletable w' = lock_undeletable w"
  by (auto simp: save_log_def write_log_def split: sum.splits if_splits)




lemma say_simps [simp]:
  "json_other (say r w) = json_other w" "dumps_other (say r w) = dumps_other w"
  "load_log (say r w) = load_log w" "log_locked (say r w) = log_locked w"
  "log_text (say r w) = log_text w" "dirs (say r w) = dirs w" "files (say r w) = files w"
  "console (say r w) = console w @ [r]" "marked_read (say r w) = marked_read w"
  "lock_mtime (say r w) = lock_mtime w" "lock_undeletable (say r w) = lock_undeletable w"
  "unwritable (say r w) = unwritable w" "undeletable (say r w) = undeletable w"
  "resolve (say r w) = resolve w" "clock (say r w) = clock w"
  by (simp_all add: say_def load_log_def split: option.splits)


text \<open>
  A log file that holds the array of the numbers 1 and 2: the set loaded holds two values
  that are not strings; once the identifier of an archived item is added, sorting the set
  raises \<^verbatim>\<open>TypeError\<close> and the log file stays as it was. With no item to archive the run
  returns normally. A log file that holds an object with the key \<^verbatim>\<open>id1\<close>: the item with
  that identifier counts as processed, nothing is archived, and the run rewrites the log as
  the array of the key.
\<close>

lemma foreign_log_run:
  "load_log foreign_log_world = {Other 1, Other 2}"
  "fst (process_folder foreign_log_world one_item) = Some TypeError"
  "log_text (snd (process_folder foreign_log_world one_item)) = log_text foreign_log_world"
  "fst (process_folder foreign_log_world []) = None"
  "load_log keyed_log_world = {Str ''id1''}"
  "fst (process_folder keyed_log_world one_item) = None"
  "files (snd (process_folder keyed_log_world one_item)) = []"
  "log_text (snd (process_folder keyed_log_world one_item)) = Some ([CHR ''['', dquote] @ ''id1'' @ [dquote] @ '']'')"
  by code_simp+




section \<open>Items that cannot be read\<close>

lemma classify_read_failure:
  "Subject m = Inl e \<or> EntryID m = Inl e \<Longrightarrow> classify seen m \<noteq> Accepted subject entry_id"
  by (auto simp: classify_Accepted_iff)

lemma process_items_drop:
  assumes "\<forall>seen subject entry_id. classify seen m \<noteq> Accepted subject entry_id"
  shows "process_items w seen n (xs @ m # ys) = process_items w seen n (xs @ ys)"
proof (induction xs arbitrary: w seen n)
  case Nil
  show ?case using assms by (simp del: process_items.simps add: process_items_not_accepted)
next
  case (Cons x xs)
  show ?case
    by (simp add: Cons.IH split: verdict.splits prod.splits option.splits)
qed

text \<open>
  C9. If reading the subject or the identifier of a candidate raises, the candidate is not
  accepted, and the loop and the whole run go on as if the candidate were not in the list
  of items, wherever it stands: nothing is written for it and nothing is added to the
  processed set on its account, so a later run meets it as a candidate again.
\<close>

theorem read_failure_skips:
  assumes "Subject m = Inl e \<or> EntryID m = Inl e"
  shows "(classify seen m = ReadFailed \<or> classify seen m = NotMail)
         \<and> process_items w seen n (xs @ m # ys) = process_items w seen n (xs @ ys)
         \<and> process_folder w (xs @ m # ys) = process_folder w (xs @ ys)"
proof -
  have c: "\<forall>seen subject entry_id. classify seen m \<noteq> Accepted subject entry_id"
    using assms by (auto simp: classify_Accepted_iff)
  have "classify seen m = ReadFailed \<or> classify seen m = NotMail"
    using assms by (auto simp: classify_def split: sum.splits)
  moreover have "\<And>w seen n. process_items w seen n (xs @ m # ys) = process_items w seen n (xs @ ys)"
    using c by (rule process_items_drop)
  ultimately show ?thesis
    by (simp add: process_folder_def)
qed

text \<open>
  An instance: an item whose subject cannot be read, in front of the forwarded item and
  alone.
\<close>

theorem read_failure_witness:
  "Subject unreadable_item = Inl com_error
   \<and> classify {} unreadable_item = ReadFailed
   \<and> process_folder empty_world (unreadable_item # one_item) = process_folder empty_world one_item
   \<and> load_log (snd (process_folder empty_world [unreadable_item])) = {}
   \<and> files (snd (process_folder empty_world [unreadable_item])) = []"
proof -
  have s: "Subject unreadable_item = Inl com_error"
    by (simp add: unreadable_item_def)
  have "classify {} unreadable_item = ReadFailed"
    by code_simp
  moreover have "load_log (snd (process_folder empty_world [unreadable_item])) = {}"
    by code_simp
  moreover have "files (snd (process_folder empty_world [unreadable_item])) = []"
    by code_simp
  ultimately show ?thesis
    using s read_failure_skips [of unreadable_item com_error "{}" empty_world 0 "[]" one_item]
    by simp
qed

section \<open>Sanitized names are plain\<close>

lemma space_valid: "CHR '' '' \<notin> set INVALID_FS_CHARS"
  by (simp add: INVALID_FS_CHARS_def dquote_def bslash_def)

lemma translate_valid: "set (translate s) \<inter> set INVALID_FS_CHARS = {}"
  using space_valid by (auto simp: translate_def TRANS_def)

lemma set_rstrip: "set (rstrip P s) \<subseteq> set s"
  using set_dropWhileD [of _ P "rev s"] by (auto simp: rstrip_def)

lemma set_strip: "set (strip s) \<subseteq> set s"
  using set_rstrip [of is_space "dropWhile is_space s"] set_dropWhileD [of _ is_space s]
  by (auto simp: strip_def)

lemma set_collapse_ws: "set (collapse_ws s) \<subseteq> insert CHR '' '' (set s)"
proof (induction s rule: collapse_ws.induct)
  case 1
  then show ?case by simp
next
  case (2 c cs)
  then show ?case
    using set_dropWhileD [of _ is_space cs] by (auto split: if_splits)
qed

lemma collapse_ws_Nil_iff: "collapse_ws s = [] \<longleftrightarrow> s = []"
  by (cases s) auto

lemma last_collapse_ws:
  "s \<noteq> [] \<Longrightarrow> last (collapse_ws s) = (if is_space (last s) then CHR '' '' else last s)"
proof (induction s rule: collapse_ws.induct)
  case 1
  then show ?case by simp
next
  case (2 c cs)
  show ?case
  proof (cases "is_space c")
    case True
    show ?thesis
    proof (cases "dropWhile is_space cs = []")
      case e: True
      then have "\<forall>x\<in>set cs. is_space x" by (simp add: dropWhile_eq_Nil_conv)
      with True e show ?thesis by (auto simp: collapse_ws_Nil_iff)
    next
      case ne: False
      then have "cs \<noteq> []" by auto
      moreover have "last (dropWhile is_space cs) = last cs"
        using ne by (metis append_self_conv2 last_appendR takeWhile_dropWhile_id)
      ultimately show ?thesis
        using True ne "2.IH"(1) by (simp add: collapse_ws_Nil_iff)
    qed
  next
    case False
    then show ?thesis using "2.IH"(2) by (cases cs) (auto simp: collapse_ws_Nil_iff)
  qed
qed

lemma last_rstrip: "rstrip P s \<noteq> [] \<Longrightarrow> \<not> P (last (rstrip P s))"
proof -
  assume "rstrip P s \<noteq> []"
  then have ne: "dropWhile P (rev s) \<noteq> []" by (simp add: rstrip_def)
  then have "\<not> P (hd (dropWhile P (rev s)))" by (rule hd_dropWhile)
  with ne show ?thesis by (simp add: rstrip_def last_rev)
qed

lemma not_dot_space: "\<not> is_space CHR ''.''" "dot_or_space CHR ''.''" "dot_or_space CHR '' ''"
  by (simp_all add: is_space_def code_def dot_or_space_def)

lemma dots_end_in_dot: "n = ''.'' \<or> n = ''..'' \<Longrightarrow> n \<noteq> [] \<and> last n = CHR ''.''"
  by auto

lemma long_not_dots: "length n = 150 \<Longrightarrow> n \<noteq> ''.'' \<and> n \<noteq> ''..''"
  by auto

lemma plain_name_safe_file_name: "plain_name (safe_file_name name)"
proof -
  define raw where "raw = path_name (if name = [] then ''attachment'' else name)"
  define b0 where "b0 = rstrip dot_or_space (strip (translate raw))"
  define base where "base = collapse_ws b0"
  have r: "safe_file_name name = take MAX_NAME (if base = [] then ''attachment'' else base)"
    by (simp add: safe_file_name_def raw_def b0_def base_def Let_def)
  have v0: "set b0 \<inter> set INVALID_FS_CHARS = {}"
    using set_rstrip [of dot_or_space "strip (translate raw)"] set_strip [of "translate raw"]
      translate_valid [of raw] unfolding b0_def by blast
  have v: "set base \<inter> set INVALID_FS_CHARS = {}"
    using set_collapse_ws [of b0] v0 space_valid unfolding base_def by blast
  show ?thesis
  proof (cases "base = []")
    case True
    with r have "safe_file_name name = ''attachment''" by (simp add: MAX_NAME_def)
    then show ?thesis
      by (simp add: plain_name_def INVALID_FS_CHARS_def dquote_def bslash_def)
  next
    case False
    with r have s: "safe_file_name name = take MAX_NAME base" by simp
    from False have b0ne: "b0 \<noteq> []" by (simp add: base_def collapse_ws_Nil_iff)
    have "\<not> dot_or_space (last b0)"
      using b0ne last_rstrip [of dot_or_space "strip (translate raw)"] by (simp add: b0_def)
    then have lb: "last base \<noteq> CHR ''.''"
      using last_collapse_ws [OF b0ne] not_dot_space by (auto simp: base_def)
    have ne: "take MAX_NAME base \<noteq> []" using False by (simp add: MAX_NAME_def)
    have nd: "take MAX_NAME base \<noteq> ''.'' \<and> take MAX_NAME base \<noteq> ''..''"
    proof (cases "length base \<le> MAX_NAME")
      case True
      then have "take MAX_NAME base = base" by simp
      with lb False show ?thesis by auto
    next
      case False
      then have "length (take MAX_NAME base) = 150" by (simp add: MAX_NAME_def)
      then show ?thesis by (rule long_not_dots)
    qed
    have "set (take MAX_NAME base) \<subseteq> set base" by (rule set_take_subset)
    with v ne nd s show ?thesis by (auto simp: plain_name_def)
  qed
qed

section \<open>Frame lemmas\<close>

lemma tree_only_refl [simp]: "tree_only w w"
  by (simp add: tree_only_def)

lemma tree_only_trans: "tree_only w w1 \<Longrightarrow> tree_only w1 w2 \<Longrightarrow> tree_only w w2"
  by (auto simp: tree_only_def)

lemma tree_only_say [simp]: "tree_only w (say r w)"
  by (simp add: tree_only_def)

lemma frame_refl [simp]: "frame dest X w w"
  by (simp add: frame_def)

lemma frame_trans:
  assumes a: "frame dest X w w1" and b: "frame dest X w1 w2"
  shows "frame dest X w w2"
proof -
  have "\<forall>p. map_of (files w2) p \<noteq> map_of (files w) p \<longrightarrow>
            child_of dest p \<and> (map_of (files w) p = None \<or> p \<in> X)"
  proof (intro allI impI)
    fix p assume d: "map_of (files w2) p \<noteq> map_of (files w) p"
    show "child_of dest p \<and> (map_of (files w) p = None \<or> p \<in> X)"
    proof (cases "map_of (files w1) p = map_of (files w) p")
      case True
      with d have "map_of (files w2) p \<noteq> map_of (files w1) p" by simp
      with b have "child_of dest p \<and> (map_of (files w1) p = None \<or> p \<in> X)"
        unfolding frame_def by blast
      with True show ?thesis by simp
    next
      case False
      with a show ?thesis unfolding frame_def by blast
    qed
  qed
  moreover have "tree_only w w2"
    using a b unfolding frame_def by (blast intro: tree_only_trans)
  moreover have "dirs w2 = dirs w" "marked_read w2 = marked_read w"
    using a b unfolding frame_def by simp_all
  ultimately show ?thesis unfolding frame_def by blast
qed

lemma frame_mono: "frame dest X w w' \<Longrightarrow> X \<subseteq> Y \<Longrightarrow> frame dest Y w w'"
  unfolding frame_def by blast

lemma frame_say: "frame dest X w w' \<Longrightarrow> frame dest X w (say r w')"
  unfolding frame_def tree_only_def by auto

lemma frame_close:
  "frame dest X w w' \<Longrightarrow> \<forall>p\<in>X. map_of (files w) p = None \<Longrightarrow> frame dest {} w w'"
  unfolding frame_def by blast

lemma is_file_map_of: "is_file w p \<longleftrightarrow> map_of (files w) p \<noteq> None"
  by (simp add: is_file_def map_of_eq_None_iff)

lemma not_exists_map_of: "\<not> path_exists w p \<Longrightarrow> map_of (files w) p = None"
  by (simp add: path_exists_def map_of_eq_None_iff)

lemma write_file_result:
  "write_file w p b = (r, w') \<Longrightarrow>
     tree_only w w' \<and> dirs w' = dirs w \<and> console w' = console w \<and> marked_read w' = marked_read w
     \<and> (\<forall>q. map_of (files w') q = (if r = None \<and> q = p then Some b else map_of (files w) q))"
  by (auto simp: write_file_def tree_only_def update_conv' split: if_splits)

lemma unlink_result:
  "unlink w p = (r, w') \<Longrightarrow>
     tree_only w w' \<and> dirs w' = dirs w \<and> console w' = console w \<and> marked_read w' = marked_read w
     \<and> (\<forall>q. map_of (files w') q = (if r = None \<and> q = p then None else map_of (files w) q))
     \<and> (r = None \<longleftrightarrow> \<not> (is_file w p \<and> p \<in> set (undeletable w)) \<and> \<not> (\<not> is_file w p \<and> is_dir w p))"
  by (auto simp: unlink_def tree_only_def delete_conv' is_file_map_of split: if_splits)

lemma frame_write:
  "write_file w p b = (r, w') \<Longrightarrow> child_of dest p \<Longrightarrow> map_of (files w) p = None \<Longrightarrow> frame dest X w w'"
  using write_file_result [of w p b r w'] by (auto simp: frame_def)

lemma frame_unlink:
  "unlink w p = (r, w') \<Longrightarrow> child_of dest p \<Longrightarrow> frame dest {p} w w'"
  using unlink_result [of w p r w'] by (auto simp: frame_def)

lemma unique_path_free: "\<not> path_exists w (unique_path w p)"
  using unique_loop_first_free [of 2 w p "path_stem p" "path_suffix p"]
  by (auto simp: unique_path_def)

lemma digit_char_valid: "n < 10 \<Longrightarrow> digit_char n \<notin> set INVALID_FS_CHARS"
proof -
  assume "n < 10"
  then have "code (digit_char n) = 48 + n"
    by (simp add: digit_char_def code_def)
  with \<open>n < 10\<close> show ?thesis
    by (auto simp: INVALID_FS_CHARS_def dquote_def bslash_def char_eq_code [of "digit_char n"] code_def)
qed

lemma str_nat_valid: "set (str_nat n) \<inter> set INVALID_FS_CHARS = {}"
proof (induction n rule: str_nat.induct)
  case (1 n)
  show ?case
  proof (cases "n < 10")
    case True
    then show ?thesis
      using digit_char_valid [of n] by (subst str_nat.simps) simp
  next
    case False
    then show ?thesis
      using 1 digit_char_valid [of "n mod 10"] by (subst str_nat.simps) auto
  qed
qed

lemma set_stem: "set (path_stem p) \<subseteq> set (name_of p)"
  by (auto simp: path_stem_def Let_def split: option.splits dest: in_set_takeD)

lemma set_suffix: "set (path_suffix p) \<subseteq> set (name_of p)"
  by (auto simp: path_suffix_def Let_def split: option.splits dest: in_set_dropD)

lemma underscore_valid: "CHR ''_'' \<notin> set INVALID_FS_CHARS"
  by (simp add: INVALID_FS_CHARS_def dquote_def bslash_def)

lemma has_underscore: "CHR ''_'' \<in> set x \<Longrightarrow> x \<noteq> [] \<and> x \<noteq> ''.'' \<and> x \<noteq> ''..''"
  by auto

lemma plain_candidate:
  assumes "plain_name n"
  shows "plain_name (path_stem (dest @ [n]) @ ''_'' @ str_nat i @ path_suffix (dest @ [n]))"
proof -
  let ?st = "path_stem (dest @ [n])" and ?su = "path_suffix (dest @ [n])"
  have v: "set n \<inter> set INVALID_FS_CHARS = {}" using assms by (simp add: plain_name_def)
  have "set ?st \<subseteq> set n" "set ?su \<subseteq> set n"
    using set_stem [of "dest @ [n]"] set_suffix [of "dest @ [n]"] by (simp_all add: name_of_def)
  with v have "set (?st @ ''_'' @ str_nat i @ ?su) \<inter> set INVALID_FS_CHARS = {}"
    using str_nat_valid [of i] underscore_valid by auto
  moreover have "CHR ''_'' \<in> set (?st @ ''_'' @ str_nat i @ ?su)" by simp
  then have "?st @ ''_'' @ str_nat i @ ?su \<noteq> [] \<and> ?st @ ''_'' @ str_nat i @ ?su \<noteq> ''.''
      \<and> ?st @ ''_'' @ str_nat i @ ?su \<noteq> ''..''"
    by (rule has_underscore)
  ultimately show ?thesis by (simp add: plain_name_def)
qed

lemma child_unique_path:
  assumes "plain_name n"
  shows "child_of dest (unique_path w (dest @ [n]))"
proof (cases "path_exists w (dest @ [n])")
  case False
  with assms show ?thesis by (auto simp: unique_path_def child_of_def)
next
  case True
  obtain j where "unique_loop w (dest @ [n]) (path_stem (dest @ [n])) (path_suffix (dest @ [n])) 2
      = candidate (dest @ [n]) (path_stem (dest @ [n])) (path_suffix (dest @ [n])) j"
    using unique_loop_first_free [of 2 w "dest @ [n]"] by blast
  with True have "unique_path w (dest @ [n])
      = dest @ [path_stem (dest @ [n]) @ ''_'' @ str_nat j @ path_suffix (dest @ [n])]"
    by (simp add: unique_path_def candidate_def with_name_def)
  with plain_candidate [OF assms, of dest j] show ?thesis
    by (auto simp: child_of_def)
qed

lemma secure_extract_member_frame:
  "secure_extract_member w m dest = (r, w') \<Longrightarrow> frame dest X w w'"
proof -
  assume a: "secure_extract_member w m dest = (r, w')"
  define out where "out = unique_path w (dest @ [safe_file_name (path_name (fst m))])"
  have c: "child_of dest out"
    unfolding out_def by (rule child_unique_path) (rule plain_name_safe_file_name)
  have n: "map_of (files w) out = None"
    unfolding out_def by (rule not_exists_map_of) (rule unique_path_free)
  have f: "\<And>b r1 w1. write_file w out b = (r1, w1) \<Longrightarrow> frame dest X w w1"
    using c n by (rule frame_write [rotated])
  show ?thesis
  proof (cases "member_is_dir m \<or> path_name (fst m) = [] \<or> guard_rejects w out dest")
    case True
    with a have "w' = w"
      by (auto simp: secure_extract_member_def Let_def out_def split: if_splits)
    then show ?thesis by simp
  next
    case False
    then have e: "secure_extract_member w m dest =
        (case snd m of
           OpenFails e \<Rightarrow> (Inl e, w)
         | ReadFails e \<Rightarrow>
             (case write_file w out (Raw []) of
                (Some e', w') \<Rightarrow> (Inl e', w')
              | (None, w') \<Rightarrow> (Inl e, w'))
         | Data b \<Rightarrow>
             (case write_file w out b of
                (Some e', w') \<Rightarrow> (Inl e', w')
              | (None, w') \<Rightarrow> (Inr (Some out), w')))"
      unfolding out_def by (simp add: secure_extract_member_def Let_def)
    show ?thesis
    proof (cases "snd m")
      case (Data b)
      obtain r1 w1 where w: "write_file w out b = (r1, w1)" by (cases "write_file w out b")
      with a e Data have "w' = w1" by (cases r1) auto
      with f [OF w] show ?thesis by simp
    next
      case (OpenFails x)
      with a e show ?thesis by simp
    next
      case (ReadFails x)
      obtain r1 w1 where w: "write_file w out (Raw []) = (r1, w1)" by (cases "write_file w out (Raw [])")
      with a e ReadFails have "w' = w1" by (cases r1) auto
      with f [OF w] show ?thesis by simp
    qed
  qed
qed

lemma extract_members_frame:
  "extract_members w ms dest = (r, w') \<Longrightarrow> frame dest X w w'"
proof (induction ms arbitrary: w)
  case Nil
  then show ?case by simp
next
  case (Cons m ms)
  obtain r1 w1 where s: "secure_extract_member w m dest = (r1, w1)"
    by (cases "secure_extract_member w m dest")
  then have f1: "frame dest X w w1" by (rule secure_extract_member_frame)
  show ?case
  proof (cases r1)
    case (Inl e)
    with s Cons.prems f1 show ?thesis by simp
  next
    case (Inr x)
    with s Cons.prems have "extract_members w1 ms dest = (r, w')" by simp
    from Cons.IH [OF this] f1 show ?thesis by (blast intro: frame_trans)
  qed
qed

section \<open>Archive traversal safety\<close>

lemma guard_skips:
  "guard_rejects w (unique_path w (dest @ [safe_file_name (path_name (fst m))])) dest
   \<Longrightarrow> secure_extract_member w m dest = (Inr None, w)"
  by (simp add: secure_extract_member_def Let_def)

text \<open>
  C4. Whatever an extraction does, and however it ends, it creates no directory, and
  every path whose file content it changes is a direct child of the destination directory
  with a plain name (the member's own directory part is gone) at which nothing existed
  before. A member whose resolved output path is neither below nor equal to the resolved
  destination is rejected by the guard; a rejected member is skipped without effect and
  the remaining members are extracted as if it were not there. (The file system of the
  model has no links of its own: \<open>resolve\<close> is a parameter of the world, and ``inside''
  is meant of the path that is written.)
\<close>

theorem extraction_stays_inside:
  assumes "extract_members w ms dest = (r, w')"
  shows "dirs w' = dirs w
         \<and> (\<forall>p. map_of (files w') p \<noteq> map_of (files w) p \<longrightarrow>
               child_of dest p \<and> map_of (files w) p = None)
         \<and> (\<forall>m. guard_rejects w (unique_path w (dest @ [safe_file_name (path_name (fst m))])) dest \<longrightarrow>
               secure_extract_member w m dest = (Inr None, w)
               \<and> extract_members w (m # ms) dest = extract_members w ms dest)
         \<and> (\<forall>out_path q d. resolve w out_path = Inr q \<and> resolve w dest = Inr d
               \<and> d \<notin> set (parents q) \<and> q \<noteq> d \<longrightarrow> guard_rejects w out_path dest)"
proof -
  have "frame dest {} w w'"
    using assms by (rule extract_members_frame)
  then have "dirs w' = dirs w"
    "\<forall>p. map_of (files w') p \<noteq> map_of (files w) p \<longrightarrow> child_of dest p \<and> map_of (files w) p = None"
    by (auto simp: frame_def)
  moreover have "\<forall>m. guard_rejects w (unique_path w (dest @ [safe_file_name (path_name (fst m))])) dest \<longrightarrow>
               secure_extract_member w m dest = (Inr None, w)
               \<and> extract_members w (m # ms) dest = extract_members w ms dest"
    by (simp add: guard_skips)
  moreover have "\<forall>out_path q d. resolve w out_path = Inr q \<and> resolve w dest = Inr d
               \<and> d \<notin> set (parents q) \<and> q \<noteq> d \<longrightarrow> guard_rejects w out_path dest"
    by (simp add: guard_rejects_def)
  ultimately show ?thesis by blast
qed

text \<open>
  An instance: members named \<^verbatim>\<open>../../evil.txt\<close> and \<^verbatim>\<open>/etc/passed.txt\<close> land in the
  destination under their base names; where \<^verbatim>\<open>d/evil.txt\<close> resolves outside the
  destination that member is skipped and the others are still extracted.
\<close>

theorem extraction_witness:
  "files (snd (extract_members dest_world evil_members [''d'']))
     = [([''d'', ''evil.txt''], Raw ''1''), ([''d'', ''passed.txt''], Raw ''2''), ([''d'', ''ok.txt''], Raw ''3'')]
   \<and> files (snd (extract_members linked_world evil_members [''d'']))
     = [([''d'', ''passed.txt''], Raw ''2''), ([''d'', ''ok.txt''], Raw ''3'')]
   \<and> fst (extract_members linked_world evil_members [''d'']) = None
   \<and> dirs (snd (extract_members linked_world evil_members [''d''])) = dirs linked_world
   \<and> child_of [''d''] [''d'', ''evil.txt'']"
proof -
  have a: "files (snd (extract_members dest_world evil_members [''d'']))
     = [([''d'', ''evil.txt''], Raw ''1''), ([''d'', ''passed.txt''], Raw ''2''), ([''d'', ''ok.txt''], Raw ''3'')]"
    by code_simp
  have b: "files (snd (extract_members linked_world evil_members [''d'']))
     = [([''d'', ''passed.txt''], Raw ''2''), ([''d'', ''ok.txt''], Raw ''3'')]"
    by code_simp
  have c: "fst (extract_members linked_world evil_members [''d'']) = None"
    by code_simp
  have e: "files dest_world = []"
    by (simp add: dest_world_def empty_world_def)
  have "extract_members linked_world evil_members [''d'']
      = (fst (extract_members linked_world evil_members [''d'']), snd (extract_members linked_world evil_members [''d'']))"
    by simp
  from extraction_stays_inside [OF this]
  have d: "dirs (snd (extract_members linked_world evil_members [''d''])) = dirs linked_world"
    by simp
  have "extract_members dest_world evil_members [''d'']
      = (fst (extract_members dest_world evil_members [''d'']), snd (extract_members dest_world evil_members [''d'']))"
    by simp
  from extraction_stays_inside [OF this] a e
  have "child_of [''d''] [''d'', ''evil.txt'']"
    by (auto dest!: spec [of _ "[''d'', ''evil.txt'']"])
  with a b c d show ?thesis by simp
qed

section \<open>Archive containers are removed\<close>

lemma console_say_mem: "x \<in> set (console w) \<Longrightarrow> x \<in> set (console (say r w))"
  by simp

lemma tree_only_console: "tree_only w w' \<Longrightarrow> x \<in> set (console w) \<Longrightarrow> x \<in> set (console w')"
  by (auto simp: tree_only_def)

lemma extraction_step_frame:
  assumes "(case read_zip w p of Inl e \<Rightarrow> (Some e, w) | Inr ms \<Rightarrow> extract_members w ms dest) = (r, w1)"
  shows "frame dest X w w1"
proof (cases "read_zip w p")
  case (Inl e)
  with assms show ?thesis by simp
next
  case (Inr ms)
  with assms have "extract_members w ms dest = (r, w1)" by simp
  then show ?thesis by (rule extract_members_frame)
qed

lemma expand_zip_result:
  assumes e: "expand_zip w p dest = (r, w')" and c: "child_of dest p" and f: "is_file w p"
  shows "frame dest {p} w w'"
    and "p \<notin> set (undeletable w) \<longrightarrow> \<not> is_file w' p"
    and "p \<in> set (undeletable w) \<longrightarrow> is_file w' p \<and> Failed_delete_zip (name_of p) OSError \<in> set (console w')"
    and "read_zip w p = Inl BadZipFile \<longrightarrow> r = None \<and> Corrupt_zip (name_of p) \<in> set (console w')"
proof -
  obtain r1 w1 where x: "(case read_zip w p of Inl e \<Rightarrow> (Some e, w) | Inr ms \<Rightarrow> extract_members w ms dest) = (r1, w1)"
    by (cases "case read_zip w p of Inl e \<Rightarrow> (Some e, w) | Inr ms \<Rightarrow> extract_members w ms dest")
  define w2 where "w2 = (if r1 = Some BadZipFile then say (Corrupt_zip (name_of p)) w1 else w1)"
  obtain r3 w3 where u: "unlink w2 p = (r3, w3)" by (cases "unlink w2 p")
  have res: "r = (if r1 = Some BadZipFile then None else r1)"
    "w' = (case r3 of Some e \<Rightarrow> say (Failed_delete_zip (name_of p) e) w3 | None \<Rightarrow> w3)"
    using e x u by (auto simp: expand_zip_def w2_def split: if_splits option.splits)
  have f1: "frame dest {} w w1"
    using x by (rule extraction_step_frame)
  then have f2: "frame dest {} w w2"
    by (simp add: w2_def frame_say)
  have f3: "frame dest {p} w2 w3"
    using u c by (rule frame_unlink)
  have f4: "frame dest {p} w w3"
    using f2 f3 by (blast intro: frame_trans frame_mono)
  show "frame dest {p} w w'"
    using f4 by (auto simp: res frame_say split: option.splits)
  have same: "map_of (files w2) p = map_of (files w) p"
    using f2 f by (auto simp: frame_def is_file_map_of)
  then have file2: "is_file w2 p" using f by (simp add: is_file_map_of)
  have und: "undeletable w2 = undeletable w"
    using f2 by (simp add: frame_def tree_only_def)
  note ur = unlink_result [OF u]
  show "p \<notin> set (undeletable w) \<longrightarrow> \<not> is_file w' p"
  proof
    assume "p \<notin> set (undeletable w)"
    with ur file2 und have "r3 = None" by simp
    with ur have "map_of (files w3) p = None" by simp
    with \<open>r3 = None\<close> show "\<not> is_file w' p" by (simp add: res is_file_map_of)
  qed
  show "p \<in> set (undeletable w) \<longrightarrow> is_file w' p \<and> Failed_delete_zip (name_of p) OSError \<in> set (console w')"
  proof
    assume "p \<in> set (undeletable w)"
    with file2 und u have "r3 = Some OSError" "w3 = w2"
      by (auto simp: unlink_def)
    with file2 show "is_file w' p \<and> Failed_delete_zip (name_of p) OSError \<in> set (console w')"
      by (simp add: res is_file_def)
  qed
  show "read_zip w p = Inl BadZipFile \<longrightarrow> r = None \<and> Corrupt_zip (name_of p) \<in> set (console w')"
  proof
    assume "read_zip w p = Inl BadZipFile"
    with x have "r1 = Some BadZipFile" "w1 = w" by simp_all
    then have "Corrupt_zip (name_of p) \<in> set (console w2)" by (simp add: w2_def)
    moreover have "tree_only w2 w3" using ur by simp
    ultimately have "Corrupt_zip (name_of p) \<in> set (console w3)" by (rule tree_only_console [rotated])
    then show "r = None \<and> Corrupt_zip (name_of p) \<in> set (console w')"
      using \<open>r1 = Some BadZipFile\<close> by (auto simp: res split: option.splits)
  qed
qed


lemma SaveAsFile_result:
  assumes "SaveAsFile att w p = (r, w1)" and "child_of dest p" and "map_of (files w) p = None"
  shows "frame dest X w w1" and "r = None \<longrightarrow> is_file w1 p"
proof -
  show "frame dest X w w1"
  proof (cases "SaveAsFile_data att")
    case (Inl e)
    with assms show ?thesis by (simp add: SaveAsFile_def)
  next
    case (Inr b)
    with assms have "write_file w p b = (r, w1)" by (simp add: SaveAsFile_def)
    then show ?thesis using assms(2,3) by (rule frame_write)
  qed
  show "r = None \<longrightarrow> is_file w1 p"
  proof (cases "SaveAsFile_data att")
    case (Inl e)
    with assms show ?thesis by (auto simp: SaveAsFile_def)
  next
    case (Inr b)
    with assms have "write_file w p b = (r, w1)" by (simp add: SaveAsFile_def)
    from write_file_result [OF this] show ?thesis by (simp add: is_file_map_of)
  qed
qed

lemma save_path_facts:
  "child_of dest (unique_path w (dest @ [safe_file_name n]))"
  "map_of (files w) (unique_path w (dest @ [safe_file_name n])) = None"
  by (simp_all add: child_unique_path plain_name_safe_file_name not_exists_map_of unique_path_free)





section \<open>Shared folders, separate files\<close>

lemma valid_safe_folder_name: "set (safe_folder_name s) \<inter> set INVALID_FS_CHARS = {}"
proof -
  define c where "c = collapse_ws (strip (translate s))"
  have "set c \<inter> set INVALID_FS_CHARS = {}"
    using set_collapse_ws [of "strip (translate s)"] set_strip [of "translate s"] translate_valid [of s]
      space_valid unfolding c_def by blast
  moreover have "set (rstrip dot_or_space (take MAX_NAME c)) \<subseteq> set c"
    using set_rstrip [of dot_or_space "take MAX_NAME c"] set_take_subset [of MAX_NAME c] by blast
  ultimately have "set (rstrip dot_or_space (take MAX_NAME c)) \<inter> set INVALID_FS_CHARS = {}"
    by blast
  moreover have "set ''message'' \<inter> set INVALID_FS_CHARS = {}"
    by (simp add: INVALID_FS_CHARS_def dquote_def bslash_def)
  ultimately show ?thesis
    by (simp add: safe_folder_name_def c_def Let_def)
qed

lemma safe_folder_name_nonempty: "safe_folder_name s \<noteq> []"
  by (simp add: safe_folder_name_def Let_def)


lemma has_letter_m: "CHR ''m'' \<in> set x \<Longrightarrow> x \<noteq> [] \<and> x \<noteq> ''.'' \<and> x \<noteq> ''..''"
  by auto

lemma plain_name_msg: "set n \<inter> set INVALID_FS_CHARS = {} \<Longrightarrow> plain_name (n @ ''.msg'')"
proof -
  assume v: "set n \<inter> set INVALID_FS_CHARS = {}"
  have "set ''.msg'' \<inter> set INVALID_FS_CHARS = {}"
    by (simp add: INVALID_FS_CHARS_def dquote_def bslash_def)
  with v have "set (n @ ''.msg'') \<inter> set INVALID_FS_CHARS = {}" by auto
  moreover have "CHR ''m'' \<in> set (n @ ''.msg'')" by simp
  then have "n @ ''.msg'' \<noteq> [] \<and> n @ ''.msg'' \<noteq> ''.'' \<and> n @ ''.msg'' \<noteq> ''..''"
    by (rule has_letter_m)
  ultimately show ?thesis by (simp add: plain_name_def)
qed


lemma save_attachment_frame:
  assumes "save_attachment w att dest saved = (saved', w')"
  shows "frame dest {} w w'"
proof -
  define clean_name where "clean_name = safe_file_name (if FileName att = [] then ''attachment'' else FileName att)"
  define save_path where "save_path = unique_path w (dest @ [clean_name])"
  have c: "child_of dest save_path" and n: "map_of (files w) save_path = None"
    using save_path_facts [where dest = dest and w = w] by (simp_all add: save_path_def clean_name_def)
  obtain r1 w1 where s: "SaveAsFile att w save_path = (r1, w1)" by (cases "SaveAsFile att w save_path")
  have f1: "frame dest {} w w1"
    using s c n by (rule SaveAsFile_result(1))
  show ?thesis
  proof (cases r1)
    case (Some e)
    with assms s have "w' = say (Failed_save_attachment clean_name e) w1"
      by (simp add: save_attachment_def Let_def clean_name_def save_path_def)
    with f1 show ?thesis by (simp add: frame_say)
  next
    case None
    show ?thesis
    proof (cases "endswith (lower clean_name) ''.zip''")
      case False
      with None assms s have "w' = w1"
        by (simp add: save_attachment_def Let_def clean_name_def save_path_def)
      with f1 show ?thesis by simp
    next
      case True
      obtain r2 w2 where x: "expand_zip w1 save_path dest = (r2, w2)"
        by (cases "expand_zip w1 save_path dest")
      have file1: "is_file w1 save_path"
        using SaveAsFile_result(2) [OF s c n] None by simp
      have "frame dest {save_path} w1 w2"
        using x c file1 by (rule expand_zip_result(1))
      with f1 have "frame dest {save_path} w w2"
        by (blast intro: frame_trans frame_mono)
      then have f2: "frame dest {} w w2"
        using n by (intro frame_close) auto
      have "w' = (case r2 of Some e \<Rightarrow> say (Failed_save_attachment clean_name e) w2 | None \<Rightarrow> w2)"
        using True None assms s x
        by (auto simp: save_attachment_def Let_def clean_name_def save_path_def split: option.splits)
      with f2 show ?thesis by (auto simp: frame_say split: option.splits)
    qed
  qed
qed

lemma save_loop_frame:
  "save_loop w atts dest saved = (saved', w') \<Longrightarrow> frame dest {} w w'"
proof (induction atts arbitrary: w saved)
  case Nil
  then show ?case by simp
next
  case (Cons att atts)
  obtain s1 w1 where a: "save_attachment w att dest saved = (s1, w1)"
    by (cases "save_attachment w att dest saved")
  with Cons.prems have "save_loop w1 atts dest s1 = (saved', w')" by simp
  from Cons.IH [OF this] save_attachment_frame [OF a] show ?case
    by (blast intro: frame_trans)
qed

lemma save_attachments_frame:
  "save_attachments w m dest = (r, w') \<Longrightarrow> frame dest {} w w'"
proof -
  assume a: "save_attachments w m dest = (r, w')"
  show ?thesis
  proof (cases "Attachments m")
    case (Inl e)
    with a show ?thesis by (simp add: save_attachments_def)
  next
    case (Inr atts)
    obtain s1 w1 where l: "save_loop w atts dest [] = (s1, w1)" by (cases "save_loop w atts dest []")
    with a Inr have "w' = w1" by (simp add: save_attachments_def)
    with save_loop_frame [OF l] show ?thesis by simp
  qed
qed

lemma save_msg_result:
  assumes "save_msg w m dest subject = (r, w')"
  shows "frame dest {} w w'"
    and "\<forall>p. r = Inr p \<longrightarrow> p = unique_path w (dest @ [safe_folder_name subject @ ''.msg''])
            \<and> \<not> path_exists w p \<and> is_file w' p"
proof -
  define msg_path where "msg_path = unique_path w (dest @ [safe_folder_name subject @ ''.msg''])"
  have c: "child_of dest msg_path"
    unfolding msg_path_def
    by (intro child_unique_path plain_name_msg valid_safe_folder_name)
  have ne: "\<not> path_exists w msg_path"
    unfolding msg_path_def by (rule unique_path_free)
  then have n: "map_of (files w) msg_path = None"
    by (rule not_exists_map_of)
  obtain r1 w1 where s: "SaveAs m w msg_path = (r1, w1)" by (cases "SaveAs m w msg_path")
  have f: "frame dest {} w w1" and g: "r1 = None \<longrightarrow> is_file w1 msg_path"
  proof -
    show "frame dest {} w w1"
    proof (cases "SaveAs_data m")
      case (Inl e)
      with s show ?thesis by (simp add: SaveAs_def)
    next
      case (Inr b)
      with s have "write_file w msg_path b = (r1, w1)" by (simp add: SaveAs_def)
      then show ?thesis using c n by (rule frame_write)
    qed
    show "r1 = None \<longrightarrow> is_file w1 msg_path"
    proof (cases "SaveAs_data m")
      case (Inl e)
      with s show ?thesis by (auto simp: SaveAs_def)
    next
      case (Inr b)
      with s have "write_file w msg_path b = (r1, w1)" by (simp add: SaveAs_def)
      from write_file_result [OF this] show ?thesis by (simp add: is_file_map_of)
    qed
  qed
  have e: "w' = w1" "r = (case r1 of Some e \<Rightarrow> Inl e | None \<Rightarrow> Inr msg_path)"
    using assms s
    by (auto simp: save_msg_def Let_def msg_path_def safe_folder_name_nonempty split: option.splits)
  with f show "frame dest {} w w'" by simp
  show "\<forall>p. r = Inr p \<longrightarrow> p = unique_path w (dest @ [safe_folder_name subject @ ''.msg''])
            \<and> \<not> path_exists w p \<and> is_file w' p"
    using e g ne by (auto simp: msg_path_def split: option.splits)
qed

lemma take_butlast_prefix: "\<exists>k'. take k (butlast p) = take k' p"
proof -
  have "take k (butlast p) = take (min k (length p - 1)) p"
    by (simp add: butlast_conv_take min.commute)
  then show ?thesis by blast
qed

lemma mkdir_p_result:
  "mkdir_p w p = (r, w') \<Longrightarrow>
     files w' = files w \<and> tree_only w w' \<and> marked_read w' = marked_read w \<and> console w' = console w
     \<and> set (dirs w) \<subseteq> set (dirs w')
     \<and> (\<forall>d\<in>set (dirs w'). d \<in> set (dirs w) \<or> (\<exists>k. d = take k p))
     \<and> (r = None \<longrightarrow> is_dir w' p)
     \<and> (is_dir w p \<longrightarrow> r = None \<and> w' = w)"
proof (induction w p arbitrary: r w' rule: mkdir_p.induct)
  case (1 w p)
  show ?case
  proof (cases "is_dir w p")
    case True
    then have "mkdir_p w p = (None, w)" by (subst mkdir_p.simps) simp
    with "1.prems" True show ?thesis by auto
  next
    case nd: False
    show ?thesis
    proof (cases "is_file w p")
      case True
      with nd have "mkdir_p w p = (Some FileExistsError, w)" by (subst mkdir_p.simps) simp
      with "1.prems" nd show ?thesis by auto
    next
      case nf: False
      obtain r1 w1 where m: "mkdir_p w (butlast p) = (r1, w1)" by (cases "mkdir_p w (butlast p)")
      have unf: "mkdir_p w p =
          (case r1 of Some e \<Rightarrow> (Some e, w1)
           | None \<Rightarrow> if p \<in> set (unwritable w1) then (Some OSError, w1)
                     else (None, w1\<lparr>dirs := p # dirs w1\<rparr>))"
        by (subst mkdir_p.simps) (simp add: nd nf m)
      from "1.IH" [OF nd nf m]
      have ih: "files w1 = files w" "tree_only w w1" "marked_read w1 = marked_read w"
        "console w1 = console w" "set (dirs w) \<subseteq> set (dirs w1)"
        "\<forall>d\<in>set (dirs w1). d \<in> set (dirs w) \<or> (\<exists>k. d = take k (butlast p))"
        by simp_all
      have pre: "\<forall>d\<in>set (dirs w1). d \<in> set (dirs w) \<or> (\<exists>k. d = take k p)"
      proof
        fix d assume "d \<in> set (dirs w1)"
        with ih(6) consider "d \<in> set (dirs w)" | k where "d = take k (butlast p)" by blast
        then show "d \<in> set (dirs w) \<or> (\<exists>k. d = take k p)"
        proof cases
          case 1
          then show ?thesis by simp
        next
          case 2
          with take_butlast_prefix [of k p] show ?thesis by auto
        qed
      qed
      show ?thesis
      proof (cases "r1 = None \<and> p \<notin> set (unwritable w1)")
        case False
        with unf "1.prems" have "w' = w1" "r \<noteq> None"
          by (auto split: option.splits if_splits)
        with ih pre nd show ?thesis by auto
      next
        case True
        with unf "1.prems" have e: "r = None" "w' = w1\<lparr>dirs := p # dirs w1\<rparr>"
          by auto
        have d: "\<forall>d\<in>set (dirs w'). d \<in> set (dirs w) \<or> (\<exists>k. d = take k p)"
        proof
          fix d assume "d \<in> set (dirs w')"
          then consider "d = p" | "d \<in> set (dirs w1)" using e by auto
          then show "d \<in> set (dirs w) \<or> (\<exists>k. d = take k p)"
          proof cases
            case 1
            then have "d = take (length p) p" by simp
            then show ?thesis by blast
          next
            case 2
            with pre show ?thesis by blast
          qed
        qed
        have "tree_only w w'" using ih(2) e by (simp add: tree_only_def)
        moreover have "is_dir w' p" using e by (simp add: is_dir_def)
        moreover have "set (dirs w) \<subseteq> set (dirs w')" using ih(5) e by auto
        ultimately show ?thesis using ih e d nd by simp
      qed
    qed
  qed
qed


lemma archive_frame:
  assumes "archive w m subject entry_id = (r, w')"
  shows "\<exists>w1 r0. mkdir_p w (BASE_DIR @ [safe_folder_name subject]) = (r0, w1)
           \<and> (r = None \<longleftrightarrow> r0 = None)
           \<and> dirs w' = dirs w1 \<and> tree_only w w'
           \<and> (\<forall>p. map_of (files w') p \<noteq> map_of (files w) p \<longrightarrow>
                  child_of (BASE_DIR @ [safe_folder_name subject]) p \<and> map_of (files w) p = None)"
proof -
  define dest where "dest = BASE_DIR @ [safe_folder_name subject]"
  obtain r0 w1 where e: "mkdir_p w dest = (r0, w1)" by (cases "mkdir_p w dest")
  note mk = mkdir_p_result [OF e]
  show ?thesis
  proof (cases r0)
    case (Some x)
    with assms e have "r = Some x" "w' = w1"
      by (simp_all add: archive_def ensure_dir_def Let_def dest_def)
    with mk e Some show ?thesis unfolding dest_def by auto
  next
    case None
    define w2 where "w2 = say (Processing subject (safe_folder_name subject)) w1"
    define w3' where "w3' = (case save_msg w2 m dest subject of
                          (Inl e, w') \<Rightarrow> say (Failed_save_msg e) w'
                        | (Inr p, w') \<Rightarrow> w')"
    define w4' where "w4' = (case save_attachments w3' m dest of
                          (Inl e, w') \<Rightarrow> say (Failed_attachments e) w'
                        | (Inr saved_non_zips, w') \<Rightarrow>
                            say (if saved_non_zips \<noteq> [] then Saved_attachments (map name_of saved_non_zips)
                                 else No_non_zip) w')"
    define w5 where "w5 = (case Save_raises m of None \<Rightarrow> w4'\<lparr>marked_read := entry_id # marked_read w4'\<rparr> | Some e \<Rightarrow> w4')"
    have "archive w m subject entry_id = (None, w5)"
      unfolding archive_def ensure_dir_def Let_def w5_def w4'_def w3'_def w2_def dest_def
      using e None by (simp add: dest_def)
    with assms have res: "r = None" "w' = w5" by simp_all
    obtain rm w3 where sm: "save_msg w2 m dest subject = (rm, w3)" by (cases "save_msg w2 m dest subject")
    obtain ra w4 where sa: "save_attachments w3' m dest = (ra, w4)" by (cases "save_attachments w3' m dest")
    have "frame dest {} w1 w2" by (simp add: w2_def frame_say)
    moreover have "frame dest {} w2 w3'"
      using save_msg_result(1) [OF sm] by (auto simp: w3'_def sm frame_say split: sum.splits)
    moreover have "frame dest {} w3' w4'"
      using save_attachments_frame [OF sa] by (auto simp: w4'_def sa frame_say split: sum.splits)
    ultimately have f: "frame dest {} w1 w4'"
      by (blast intro: frame_trans)
    have w5: "files w5 = files w4'" "dirs w5 = dirs w4'" "tree_only w4' w5"
      by (auto simp: w5_def tree_only_def split: option.splits)
    have "tree_only w w5"
      using mk f w5 by (auto simp: frame_def intro: tree_only_trans)
    moreover have "dirs w5 = dirs w1" using f w5 by (simp add: frame_def)
    moreover have "\<forall>p. map_of (files w5) p \<noteq> map_of (files w) p \<longrightarrow>
                  child_of dest p \<and> map_of (files w) p = None"
      using f mk w5 by (simp add: frame_def)
    ultimately show ?thesis
      using e None res unfolding dest_def by auto
  qed
qed


lemma unique_path_agree:
  assumes p: "path_exists w p = path_exists w' p"
    and c: "\<forall>i. path_exists w (candidate p (path_stem p) (path_suffix p) i)
              = path_exists w' (candidate p (path_stem p) (path_suffix p) i)"
  shows "unique_path w p = unique_path w' p"
proof (cases "path_exists w p")
  case False
  with p show ?thesis by (simp add: unique_path_def)
next
  case True
  let ?c = "candidate p (path_stem p) (path_suffix p)"
  obtain j where j: "2 \<le> j" "unique_loop w p (path_stem p) (path_suffix p) 2 = ?c j"
    "\<not> path_exists w (?c j)" "\<forall>k. 2 \<le> k \<and> k < j \<longrightarrow> path_exists w (?c k)"
    using unique_loop_first_free [of 2 w p "path_stem p" "path_suffix p"] by blast
  obtain j' where j': "2 \<le> j'" "unique_loop w' p (path_stem p) (path_suffix p) 2 = ?c j'"
    "\<not> path_exists w' (?c j')" "\<forall>k. 2 \<le> k \<and> k < j' \<longrightarrow> path_exists w' (?c k)"
    using unique_loop_first_free [of 2 w' p "path_stem p" "path_suffix p"] by blast
  have "\<not> j < j'"
    using j(1,3) j'(4) c by auto
  moreover have "\<not> j' < j"
    using j'(1,3) j(4) c by auto
  ultimately have "j = j'" by simp
  with True p j(2) j'(2) show ?thesis by (simp add: unique_path_def)
qed

lemma unique_path_say [simp]: "unique_path (say r w) p = unique_path w p"
  by (rule unique_path_agree) (simp_all add: path_exists_def)






















section \<open>Run lock\<close>

lemma archive_tree_only: "archive w m subject entry_id = (r, w') \<Longrightarrow> tree_only w w'"
  using archive_frame by blast

lemma process_items_tree_only:
  "process_items w seen n items = (r, w', seen', n') \<Longrightarrow> tree_only w w'"
proof (induction items arbitrary: w seen n)
  case Nil
  then show ?case by simp
next
  case (Cons m rest)
  show ?case
  proof (cases "\<exists>subject entry_id. classify seen m = Accepted subject entry_id")
    case False
    then have "process_items w seen n (m # rest) = process_items w seen n rest"
      by (intro process_items_not_accepted) simp
    with Cons show ?thesis by simp
  next
    case True
    then obtain subject entry_id where a: "classify seen m = Accepted subject entry_id" by blast
    obtain r1 w1 where ar: "archive w m subject entry_id = (r1, w1)" by (cases "archive w m subject entry_id")
    then have t1: "tree_only w w1" by (rule archive_tree_only)
    show ?thesis
    proof (cases r1)
      case (Some e)
      with a ar Cons.prems have "w' = w1" by simp
      with t1 show ?thesis by simp
    next
      case None
      with a ar Cons.prems have "process_items w1 (insert (Str entry_id) seen) (n + 1) rest = (r, w', seen', n')"
        by simp
      from Cons.IH [OF this] t1 show ?thesis by (blast intro: tree_only_trans)
    qed
  qed
qed

lemma process_folder_lock:
  "process_folder w items = (r, w') \<Longrightarrow>
     lock_mtime w' = lock_mtime w \<and> lock_undeletable w' = lock_undeletable w"
proof -
  assume a: "process_folder w items = (r, w')"
  obtain r1 w1 seen1 k where p: "process_items w (load_log w) 0 items = (r1, w1, seen1, k)"
    by (cases "process_items w (load_log w) 0 items") auto
  then have t: "tree_only w w1" by (rule process_items_tree_only)
  show ?thesis
  proof (cases r1)
    case (Some e)
    with a p have "w' = w1" by (simp add: process_folder_def)
    with t show ?thesis by (simp add: tree_only_def)
  next
    case None
    obtain r2 w2 where s: "save_log w1 seen1 = (r2, w2)" by (cases "save_log w1 seen1")
    then have l: "lock_mtime w2 = lock_mtime w1 \<and> lock_undeletable w2 = lock_undeletable w1"
      by (simp add: save_log_frame)
    from a p None s have "w' = w2 \<or> w' = say (Done k) w2"
      by (auto simp: process_folder_def split: option.splits)
    with l t show ?thesis by (auto simp: tree_only_def)
  qed
qed

text \<open>
  C7 (as amended). If at startup the lock marker exists and its age (the time since its
  \<^verbatim>\<open>st_mtime\<close>, which for a marker that is created and never written is its creation
  time) is at most 900 seconds, the run exits with code 0 and changes nothing but the
  console. If the marker is older and can be removed, it is removed, a fresh marker is
  created, \<^verbatim>\<open>process_folder\<close> runs, and the marker is gone afterwards whether
  \<^verbatim>\<open>process_folder\<close> returned or raised. If the marker is older and its removal fails,
  the failure is swallowed and the run exits with code 0 as under a fresh marker. A run
  that starts without a marker also leaves none behind when the marker can be removed.
\<close>

theorem lock_behaviour:
  "(lock_mtime w = Some t \<and> clock w - t \<le> LOCK_MAX_AGE_SECS \<longrightarrow>
      main w items = (SystemExit 0, say Another_run w))
   \<and> (lock_mtime w = Some t \<and> clock w - t > LOCK_MAX_AGE_SECS \<and> lock_undeletable w \<longrightarrow>
      main w items = (SystemExit 0, say Another_run (say (Stale_lock \<lfloor>clock w - t\<rfloor>) w)))
   \<and> (lock_mtime w = Some t \<and> clock w - t > LOCK_MAX_AGE_SECS \<and> \<not> lock_undeletable w \<longrightarrow>
      (\<exists>w2 r w3. w2 = (say (Stale_lock \<lfloor>clock w - t\<rfloor>) w)\<lparr>lock_mtime := Some (clock w)\<rparr>
         \<and> process_folder w2 items = (r, w3)
         \<and> main w items = ((case r of None \<Rightarrow> Returned | Some e \<Rightarrow> Raised e), w3\<lparr>lock_mtime := None\<rparr>)))
   \<and> (lock_mtime w = None \<and> \<not> lock_undeletable w \<longrightarrow> lock_mtime (snd (main w items)) = None)
   \<and> exit_code (SystemExit 0) = 0 \<and> LOCK_MAX_AGE_SECS = 900"
proof -
  have 1: "lock_mtime w = Some t \<and> clock w - t \<le> LOCK_MAX_AGE_SECS \<longrightarrow>
      main w items = (SystemExit 0, say Another_run w)"
    by (simp add: main_def clear_stale_def acquire_def Let_def)
  have 2: "lock_mtime w = Some t \<and> clock w - t > LOCK_MAX_AGE_SECS \<and> lock_undeletable w \<longrightarrow>
      main w items = (SystemExit 0, say Another_run (say (Stale_lock \<lfloor>clock w - t\<rfloor>) w))"
    by (simp add: main_def clear_stale_def acquire_def Let_def)
  have 3: "lock_mtime w = Some t \<and> clock w - t > LOCK_MAX_AGE_SECS \<and> \<not> lock_undeletable w \<longrightarrow>
      (\<exists>w2 r w3. w2 = (say (Stale_lock \<lfloor>clock w - t\<rfloor>) w)\<lparr>lock_mtime := Some (clock w)\<rparr>
         \<and> process_folder w2 items = (r, w3)
         \<and> main w items = ((case r of None \<Rightarrow> Returned | Some e \<Rightarrow> Raised e), w3\<lparr>lock_mtime := None\<rparr>))"
  proof
    assume h: "lock_mtime w = Some t \<and> clock w - t > LOCK_MAX_AGE_SECS \<and> \<not> lock_undeletable w"
    define w2 where "w2 = (say (Stale_lock \<lfloor>clock w - t\<rfloor>) w)\<lparr>lock_mtime := Some (clock w)\<rparr>"
    obtain r w3 where p: "process_folder w2 items = (r, w3)" by (cases "process_folder w2 items")
    from process_folder_lock [OF p] have "\<not> lock_undeletable w3"
      using h by (simp add: w2_def)
    then have rel: "release w3 = w3\<lparr>lock_mtime := None\<rparr>" by (simp add: release_def)
    have c: "clear_stale w = (say (Stale_lock \<lfloor>clock w - t\<rfloor>) w)\<lparr>lock_mtime := None\<rparr>"
      using h by (simp add: clear_stale_def Let_def)
    have "acquire (clear_stale w) = (None, w2)"
      by (simp add: c acquire_def w2_def)
    then have "main w items = ((case r of None \<Rightarrow> Returned | Some e \<Rightarrow> Raised e), w3\<lparr>lock_mtime := None\<rparr>)"
      using p rel by (simp add: main_def Let_def split: option.splits)
    with p show "\<exists>w2 r w3. w2 = (say (Stale_lock \<lfloor>clock w - t\<rfloor>) w)\<lparr>lock_mtime := Some (clock w)\<rparr>
         \<and> process_folder w2 items = (r, w3)
         \<and> main w items = ((case r of None \<Rightarrow> Returned | Some e \<Rightarrow> Raised e), w3\<lparr>lock_mtime := None\<rparr>)"
      unfolding w2_def by blast
  qed
  have 4: "lock_mtime w = None \<and> \<not> lock_undeletable w \<longrightarrow> lock_mtime (snd (main w items)) = None"
  proof
    assume h: "lock_mtime w = None \<and> \<not> lock_undeletable w"
    define w2 where "w2 = w\<lparr>lock_mtime := Some (clock w)\<rparr>"
    obtain r w3 where p: "process_folder w2 items = (r, w3)" by (cases "process_folder w2 items")
    from process_folder_lock [OF p] have "\<not> lock_undeletable w3"
      using h by (simp add: w2_def)
    then have rel: "release w3 = w3\<lparr>lock_mtime := None\<rparr>" by (simp add: release_def)
    have "acquire (clear_stale w) = (None, w2)"
      using h by (simp add: clear_stale_def acquire_def w2_def)
    then have "snd (main w items) = w3\<lparr>lock_mtime := None\<rparr>"
      using p rel by (simp add: main_def Let_def split: option.splits)
    then show "lock_mtime (snd (main w items)) = None" by simp
  qed
  have 5: "exit_code (SystemExit 0) = 0 \<and> LOCK_MAX_AGE_SECS = 900"
    by (simp add: exit_code_def LOCK_MAX_AGE_SECS_def)
  from 1 2 3 4 5 show ?thesis by blast
qed

text \<open>
  Instances: a fresh marker stops the run before any item is processed; a stale marker is
  replaced, the item is archived and the marker released; the marker is released as well
  when \<^verbatim>\<open>process_folder\<close> raises.
\<close>

theorem lock_behaviour_witness:
  "fst (main fresh_lock_world one_item) = SystemExit 0
   \<and> files (snd (main fresh_lock_world one_item)) = []
   \<and> fst (main stale_lock_world one_item) = Returned
   \<and> lock_mtime (snd (main stale_lock_world one_item)) = None
   \<and> files (snd (main stale_lock_world one_item))
       = [(BASE_DIR @ [''FW SR12345678'', ''FW SR12345678.msg''], Raw ''msg'')]
   \<and> fst (main blocked_world one_item) = Raised FileExistsError
   \<and> lock_mtime (snd (main blocked_world one_item)) = None"
proof -
  have a: "lock_mtime fresh_lock_world = Some 100 \<and> clock fresh_lock_world - 100 \<le> LOCK_MAX_AGE_SECS"
    by (simp add: fresh_lock_world_def empty_world_def LOCK_MAX_AGE_SECS_def)
  from lock_behaviour [of fresh_lock_world 100 one_item] a
  have m: "main fresh_lock_world one_item = (SystemExit 0, say Another_run fresh_lock_world)"
    by blast
  have "files (snd (main fresh_lock_world one_item)) = []"
    by (simp add: m) (simp add: fresh_lock_world_def empty_world_def)
  moreover have "fst (main stale_lock_world one_item) = Returned"
    by code_simp
  moreover have "lock_mtime (snd (main stale_lock_world one_item)) = None"
    by code_simp
  moreover have "files (snd (main stale_lock_world one_item))
       = [(BASE_DIR @ [''FW SR12345678'', ''FW SR12345678.msg''], Raw ''msg'')]"
    by code_simp
  moreover have "fst (main blocked_world one_item) = Raised FileExistsError"
    by code_simp
  moreover have "lock_mtime (snd (main blocked_world one_item)) = None"
    by code_simp
  ultimately show ?thesis using m by simp
qed

text \<open>
  The claim as first stated lets every run with a stale marker proceed. A stale marker
  whose removal fails stops the run with exit code 0: the marker stays and nothing is
  archived.
\<close>

theorem stale_lock_counterexample:
  "lock_mtime stuck_lock_world = Some 0
   \<and> clock stuck_lock_world - 0 > LOCK_MAX_AGE_SECS
   \<and> fst (main stuck_lock_world one_item) = SystemExit 0
   \<and> lock_mtime (snd (main stuck_lock_world one_item)) = Some 0
   \<and> files (snd (main stuck_lock_world one_item)) = []"
  by code_simp

end
